theory Spec2Isabelle
  imports Main
begin

section \<open>Byte strings\<close>

text \<open>
  The program is Python 2: a \<open>str\<close> is a sequence of bytes, modelled as \<open>string\<close>
  (a list of 8-bit characters). \<open>CRLF = b'\r\n'\<close> is the two bytes 0x0D 0x0A.
\<close>

definition CRLF :: string where
  "CRLF = [CHR 0x0D, CHR 0x0A]"

text \<open>\<open>s.startswith(p)\<close> and \<open>s.endswith(p)\<close>.\<close>

definition startswith :: "string \<Rightarrow> string \<Rightarrow> bool" where
  "startswith s p = (take (length p) s = p)"

definition endswith :: "string \<Rightarrow> string \<Rightarrow> bool" where
  "endswith s p = (length p \<le> length s \<and> drop (length s - length p) s = p)"

text \<open>
  \<open>data.find(sub)\<close>: the lowest index at which \<open>sub\<close> occurs in \<open>data\<close>; Python's
  \<open>-1\<close> is \<open>None\<close> here.
\<close>

fun find_bytes :: "string \<Rightarrow> string \<Rightarrow> nat option" where
  "find_bytes sub [] = (if sub = [] then Some 0 else None)"
| "find_bytes sub (x # xs) =
     (if startswith (x # xs) sub then Some 0
      else map_option Suc (find_bytes sub xs))"

text \<open>
  \<open>s.split(sep)\<close> with an explicit one-byte separator: every occurrence of the
  separator cuts, empty fields are kept, and the empty string gives one empty field.
\<close>

fun split :: "char \<Rightarrow> string \<Rightarrow> string list" where
  "split sep [] = [[]]"
| "split sep (x # xs) =
     (if x = sep then [] # split sep xs
      else (case split sep xs of
              [] \<Rightarrow> [[x]]
            | p # ps \<Rightarrow> (x # p) # ps))"

section \<open>io.BytesIO\<close>

text \<open>
  A \<open>BytesIO\<close> object is its content and its stream position. \<open>write\<close> overwrites
  from the position on (padding with zero bytes when the position lies beyond the
  end) and advances the position; \<open>truncate()\<close> cuts the content at the position and
  leaves the position where it is; \<open>getvalue()\<close> returns the whole content whatever
  the position.
\<close>

record bytesio =
  content :: string
  pos :: nat

definition BytesIO :: bytesio where
  "BytesIO = \<lparr>content = [], pos = 0\<rparr>"

definition getvalue :: "bytesio \<Rightarrow> string" where
  "getvalue b = content b"

definition tell :: "bytesio \<Rightarrow> nat" where
  "tell b = pos b"

definition seek :: "nat \<Rightarrow> bytesio \<Rightarrow> bytesio" where
  "seek n b = b\<lparr>pos := n\<rparr>"

definition write_bytes :: "string \<Rightarrow> bytesio \<Rightarrow> bytesio" where
  "write_bytes data b =
     (if data = [] then b
      else \<lparr>content =
              take (pos b) (content b) @ replicate (pos b - length (content b)) (CHR 0x00)
                @ data @ drop (pos b + length data) (content b),
            pos = pos b + length data\<rparr>)"

definition truncate_bytes :: "bytesio \<Rightarrow> bytesio" where
  "truncate_bytes b = b\<lparr>content := take (pos b) (content b)\<rparr>"

section \<open>The underlying socket\<close>

text \<open>
  The socket is outside the repository. It is modelled by what it will still deliver:
  the chunks in which the peer's bytes arrive, followed by the end of the stream.
  \<open>recv(bufsize)\<close> returns at most \<open>bufsize\<close> bytes of the chunk at the head and the
  empty string once the peer has closed. A well-formed socket holds no empty chunk,
  since \<open>recv\<close> returns the empty string only at the end of the stream.
\<close>

type_synonym socket = "string list"

fun socket_recv :: "nat \<Rightarrow> socket \<Rightarrow> string \<times> socket" where
  "socket_recv bufsize [] = ([], [])"
| "socket_recv bufsize (c # cs) =
     (if length c \<le> bufsize then (c, cs)
      else (take bufsize c, drop bufsize c # cs))"

definition socket_ok :: "socket \<Rightarrow> bool" where
  "socket_ok s = ([] \<notin> set s)"

section \<open>Exceptions (exc.py)\<close>

text \<open>
  \<open>LineTooLong(length, limit)\<close> and \<open>NoLine(size)\<close> are the \<open>ReadError\<close>s,
  \<open>InvalidLine(reason, line)\<close> is the \<open>ParseError\<close>. The constructor arguments are kept
  in the order in which the raising code passes them; the attributes are read off as
  the classes' \<open>__init__\<close> stores them. \<open>ValueError\<close> and \<open>TypeError\<close> are the
  builtin exceptions, neither a \<open>ReadError\<close> nor a \<open>ParseError\<close>.
\<close>

datatype exn =
    LineTooLong int int
  | NoLine int
  | InvalidLine string string
  | ValueError
  | TypeError

fun is_ReadError :: "exn \<Rightarrow> bool" where
  "is_ReadError (LineTooLong _ _) = True"
| "is_ReadError (NoLine _) = True"
| "is_ReadError _ = False"

fun is_ParseError :: "exn \<Rightarrow> bool" where
  "is_ParseError (InvalidLine _ _) = True"
| "is_ParseError _ = False"

text \<open>
  \<open>InvalidLine.__init__(self, reason, line)\<close> sets the message to
  \<open>'{0} - {1}'.format(reason, line)\<close> and \<open>self.line = line\<close>.
\<close>

fun invalid_line_message :: "exn \<Rightarrow> string" where
  "invalid_line_message (InvalidLine reason line) = reason @ '' - '' @ line"
| "invalid_line_message _ = []"

fun invalid_line_line :: "exn \<Rightarrow> string" where
  "invalid_line_line (InvalidLine reason line) = line"
| "invalid_line_line _ = []"

section \<open>SocketBuffer\<close>

record socket_buffer =
  sock :: socket
  buf :: bytesio

definition SocketBuffer :: "socket \<Rightarrow> socket_buffer" where
  "SocketBuffer s = \<lparr>sock = s, buf = BytesIO\<rparr>"

definition unread :: "string \<Rightarrow> socket_buffer \<Rightarrow> socket_buffer" where
  "unread bytes self =
     (let data = bytes @ getvalue (buf self)
      in self\<lparr>buf := write_bytes data (seek 0 (buf self))\<rparr>)"

text \<open>
  \<open>recv(bufsize)\<close> returns the bytes delivered and the adapter afterwards. The size is
  a natural number: the socket API takes no negative size.
\<close>

definition recv :: "nat \<Rightarrow> socket_buffer \<Rightarrow> string \<times> socket_buffer" where
  "recv bufsize self =
     (if tell (buf self) = 0 then
        (let r = socket_recv bufsize (sock self) in (fst r, self\<lparr>sock := snd r\<rparr>))
      else
        (let data = getvalue (buf self);
             b0 = seek 0 (buf self)
         in if length data > bufsize then
              (take bufsize data,
               self\<lparr>buf := truncate_bytes (write_bytes (drop bufsize data) b0)\<rparr>)
            else (data, self\<lparr>buf := truncate_bytes b0\<rparr>)))"

text \<open>
  \<open>close()\<close> empties the buffer and closes the socket. The closed socket is not
  modelled: \<open>close\<close> is the last call on an adapter.
\<close>

definition close :: "socket_buffer \<Rightarrow> socket_buffer" where
  "close self = self\<lparr>buf := truncate_bytes (seek 0 (buf self))\<rparr>"

section \<open>read_line\<close>

text \<open>
  \<open>limit\<close> is \<open>None\<close> or an integer. Both tests of the loop have the form
  \<open>limit and n + 2 > limit\<close>, false for \<open>None\<close> and for \<open>0\<close>, and both raise
  \<open>LineTooLong(n, limit)\<close>; \<open>too_long limit n\<close> is the exception raised, if any.
\<close>

definition too_long :: "int option \<Rightarrow> int \<Rightarrow> exn option" where
  "too_long limit n =
     (case limit of
        None \<Rightarrow> None
      | Some l \<Rightarrow> if l \<noteq> 0 \<and> n + 2 > l then Some (LineTooLong n l) else None)"

definition socket_size :: "socket \<Rightarrow> nat" where
  "socket_size s = length (concat s) + length s"

text \<open>
  The loop of \<open>read_line(sock, buffer, read_size, limit)\<close>; the result is the line or
  the exception raised, with the buffer and the socket as the call leaves them.
\<close>

function read_line ::
  "socket \<Rightarrow> bytesio \<Rightarrow> nat \<Rightarrow> int option \<Rightarrow> (exn + string) \<times> bytesio \<times> socket" where
  "read_line s buffer read_size limit =
     (let data = getvalue buffer in
      case find_bytes CRLF data of
        Some idx \<Rightarrow>
          (case too_long limit (int idx) of
             Some e \<Rightarrow> (Inl e, buffer, s)
           | None \<Rightarrow>
               (Inr (take (idx + 2) data),
                truncate_bytes (write_bytes (drop (idx + 2) data) (seek 0 buffer)), s))
      | None \<Rightarrow>
          (case too_long limit (int (length data)) of
             Some e \<Rightarrow> (Inl e, buffer, s)
           | None \<Rightarrow>
               (let r = socket_recv read_size s in
                if fst r = [] then
                  (Inl (NoLine (int (length (getvalue buffer)))), buffer, snd r)
                else read_line (snd r) (write_bytes (fst r) buffer) read_size limit)))"
  by pat_completeness auto
termination
proof (relation "measure (\<lambda>(s, buffer, read_size, limit). socket_size s)")
  show "wf (measure (\<lambda>(s, buffer, read_size, limit). socket_size s))"
    by simp
next
  fix s :: socket and buffer :: bytesio and read_size :: nat and limit :: "int option"
    and data :: string and r :: "string \<times> socket"
  assume "r = socket_recv read_size s" and "fst r \<noteq> []"
  then have "socket_size (snd r) < socket_size s"
    by (cases s) (auto simp: socket_size_def)
  then show "((snd r, write_bytes (fst r) buffer, read_size, limit), s, buffer, read_size, limit)
      \<in> measure (\<lambda>(s, buffer, read_size, limit). socket_size s)"
    by simp
qed

declare read_line.simps [simp del]

section \<open>parse_line\<close>

text \<open>
  \<open>ProxyInfo\<close> is a named tuple of two addresses (byte strings, as received) and two
  ports (Python integers, unbounded).
\<close>

record proxy_info =
  source_address :: string
  source_port :: int
  destination_address :: string
  destination_port :: int

text \<open>
  The builtin \<open>int(s)\<close> on a Python 2 byte string, base 10: whitespace around the
  number is dropped, one sign is allowed (Python 2 also skips whitespace after it), and
  what remains must be one or more decimal digits; anything else raises
  \<open>ValueError\<close>, here \<open>None\<close>. The result is unbounded.
\<close>

definition isspace :: "char \<Rightarrow> bool" where
  "isspace c = (c \<in> {CHR 0x20, CHR 0x09, CHR 0x0A, CHR 0x0B, CHR 0x0C, CHR 0x0D})"

definition isdigit :: "char \<Rightarrow> bool" where
  "isdigit c = (48 \<le> (of_char c :: nat) \<and> (of_char c :: nat) \<le> 57)"

definition strip :: "string \<Rightarrow> string" where
  "strip s = rev (dropWhile isspace (rev (dropWhile isspace s)))"

definition decimal :: "string \<Rightarrow> int" where
  "decimal ds = foldl (\<lambda>a c. 10 * a + (int (of_char c) - 48)) 0 ds"

definition unsigned :: "string \<Rightarrow> int option" where
  "unsigned ds = (if ds \<noteq> [] \<and> list_all isdigit ds then Some (decimal ds) else None)"

definition py_int :: "string \<Rightarrow> int option" where
  "py_int s =
     (case strip s of
        [] \<Rightarrow> None
      | c # r \<Rightarrow>
          if c = CHR ''-'' then map_option uminus (unsigned (dropWhile isspace r))
          else if c = CHR ''+'' then unsigned (dropWhile isspace r)
          else unsigned (c # r))"

text \<open>
  \<open>socket.inet_pton\<close> belongs to the C library, not to the repository, so the parser
  takes it as a parameter. A call has three outcomes: the address is converted (the
  packed value is thrown away by the parser), \<open>socket.error\<close> is raised for a string
  that is no address of the family, or \<open>TypeError\<close> is raised, as Python 2 does for an
  argument that holds a NUL byte.
\<close>

datatype family = AF_INET | AF_INET6

datatype pton = Converted | Socket_error | Type_error

text \<open>
  The \<open>try\<close> block of one branch converts the source address and then the destination
  address; the first call that raises ends the block.
\<close>

definition convert_both :: "(family \<Rightarrow> string \<Rightarrow> pton) \<Rightarrow> family \<Rightarrow> string \<Rightarrow> string \<Rightarrow> pton" where
  "convert_both inet_pton fam src_addr dst_addr =
     (case inet_pton fam src_addr of
        Converted \<Rightarrow> inet_pton fam dst_addr
      | Socket_error \<Rightarrow> Socket_error
      | Type_error \<Rightarrow> Type_error)"

text \<open>
  The address checks: \<open>except socket.error\<close> turns a \<open>socket.error\<close> into an
  \<open>InvalidLine\<close>; a \<open>TypeError\<close> is not caught and leaves \<open>parse_line\<close> as it is.
\<close>

definition check_addresses ::
  "(family \<Rightarrow> string \<Rightarrow> pton) \<Rightarrow> string \<Rightarrow> string \<Rightarrow> string \<Rightarrow> string \<Rightarrow> exn option" where
  \<open>check_addresses inet_pton line inet src_addr dst_addr =
     (if inet = ''TCP4'' then
        (case convert_both inet_pton AF_INET src_addr dst_addr of
           Converted \<Rightarrow> None
         | Socket_error \<Rightarrow> Some (InvalidLine (''Invalid INET '' @ inet @ '' address(es)'') line)
         | Type_error \<Rightarrow> Some TypeError)
      else if inet = ''TCP6'' then
        (case convert_both inet_pton AF_INET6 src_addr dst_addr of
           Converted \<Rightarrow> None
         | Socket_error \<Rightarrow> Some (InvalidLine (''Invalid INET '' @ inet @ '' address(es)'') line)
         | Type_error \<Rightarrow> Some TypeError)
      else Some (InvalidLine (''Unsupported INET "'' @ inet @ ''"'') line))\<close>

text \<open>\<open>parts = line[:-len(CRLF)].split(b' ')\<close>.\<close>

definition line_parts :: "string \<Rightarrow> string list" where
  "line_parts line = split (CHR '' '') (take (length line - length CRLF) line)"

definition parse_line :: "(family \<Rightarrow> string \<Rightarrow> pton) \<Rightarrow> string \<Rightarrow> exn + proxy_info" where
  \<open>parse_line inet_pton line =
     (if \<not> startswith line ''PROXY'' then
        Inl (InvalidLine ''Missing "PROXY" prefix'' line)
      else if \<not> endswith line CRLF then
        Inl (InvalidLine (''Missing "'' @ [CHR 0x5C] @ ''r'' @ [CHR 0x5C] @ ''n" terminal'') line)
      else
        (let parts = line_parts line in
         if length parts \<noteq> 6 then
           Inl (InvalidLine ''Expected 6 " " delimited parts'' line)
         else
           (let inet = parts ! 1; src_addr = parts ! 2; dst_addr = parts ! 3 in
            case check_addresses inet_pton line inet src_addr dst_addr of
              Some e \<Rightarrow> Inl e
            | None \<Rightarrow>
                (case (py_int (parts ! 4), py_int (parts ! 5)) of
                   (Some src_port, Some dst_port) \<Rightarrow>
                     Inr \<lparr>source_address = src_addr, source_port = src_port,
                          destination_address = dst_addr, destination_port = dst_port\<rparr>
                 | _ \<Rightarrow> Inl (InvalidLine line ''Invalid port'')))))\<close>

text \<open>
  A concrete \<open>inet_pton\<close> for evaluating the parser on examples: it raises
  \<open>TypeError\<close> for a string that holds a NUL byte; for \<open>AF_INET\<close> it converts four
  dot-separated fields of one to three decimal digits with value at most 255 and no
  leading zero; it converts no \<open>AF_INET6\<close> address.
\<close>

definition octet :: "string \<Rightarrow> bool" where
  "octet f =
     (f \<noteq> [] \<and> length f \<le> 3 \<and> list_all isdigit f \<and> decimal f \<le> 255
      \<and> (length f = 1 \<or> hd f \<noteq> CHR ''0''))"

definition dotted_quad :: "family \<Rightarrow> string \<Rightarrow> pton" where
  "dotted_quad fam a =
     (if CHR 0x00 \<in> set a then Type_error
      else if fam = AF_INET \<and> length (split (CHR ''.'') a) = 4
              \<and> list_all octet (split (CHR ''.'') a)
      then Converted
      else Socket_error)"

text \<open>
  The header line as the specification's grammar writes it:
  \<open>"PROXY" SP INET-FAMILY SP SRC-ADDR SP DST-ADDR SP SRC-PORT SP DST-PORT CRLF\<close>.
\<close>

definition wire_format :: "string \<Rightarrow> string \<Rightarrow> string \<Rightarrow> string \<Rightarrow> string \<Rightarrow> string" where
  "wire_format inet src_addr dst_addr src_port dst_port =
     ''PROXY'' @ '' '' @ inet @ '' '' @ src_addr @ '' '' @ dst_addr @ '' ''
       @ src_port @ '' '' @ dst_port @ CRLF"

section \<open>StreamRequestMixin\<close>

text \<open>
  \<open>self.client_address\<close> is the peer's \<open>(host, port)\<close> pair. The default hook compares
  it with the destination of the parsed information.
\<close>

definition proxy_authenticate :: "string \<times> int \<Rightarrow> proxy_info \<Rightarrow> bool" where
  "proxy_authenticate client_address info =
     ((destination_address info, destination_port info) = client_address)"

text \<open>
  \<open>self.request\<close> is the raw socket until \<open>proxy_protocol\<close> has wrapped it. The
  \<open>default\<close> argument is the string \<open>'peer'\<close> or any other value, and the method
  returns either a \<open>ProxyInfo\<close> or that other value.
\<close>

datatype request = Raw socket | Wrapped socket_buffer

datatype 'a default = Peer | Given 'a

datatype 'a returned = Info proxy_info | Default 'a

definition wrap :: "request \<Rightarrow> socket_buffer" where
  "wrap request = (case request of Wrapped sb \<Rightarrow> sb | Raw s \<Rightarrow> SocketBuffer s)"

definition resolve :: "string \<times> int \<Rightarrow> 'a default \<Rightarrow> 'a returned" where
  "resolve client_address d =
     (case d of
        Peer \<Rightarrow>
          Info \<lparr>source_address = fst client_address, source_port = snd client_address,
                destination_address = fst client_address,
                destination_port = snd client_address\<rparr>
      | Given v \<Rightarrow> Default v)"

text \<open>
  \<open>proxy_protocol(error, default, limit, authenticate)\<close>. The authentication hook is a
  method a subclass may override, so it is a parameter \<open>hook\<close>; the mixin's own is
  \<open>proxy_authenticate client_address\<close>. The result is the value returned or the
  exception raised, with \<open>self.request\<close> as the call leaves it. \<open>except exc.ReadError\<close>
  and \<open>except exc.ParseError\<close> handle the exceptions of their class only; any other
  exception leaves the method, whatever the policy.
\<close>

definition proxy_protocol ::
  "(family \<Rightarrow> string \<Rightarrow> pton) \<Rightarrow> (proxy_info \<Rightarrow> bool) \<Rightarrow> string \<times> int \<Rightarrow>
   string \<Rightarrow> 'a default \<Rightarrow> int option \<Rightarrow> bool \<Rightarrow> request \<Rightarrow> (exn + 'a returned) \<times> request" where
  "proxy_protocol inet_pton hook client_address error dflt limit authenticate request =
     (if error \<noteq> ''raise'' \<and> error \<noteq> ''unread'' then (Inl ValueError, request)
      else
        (let self_request = wrap request;
             dflt' = resolve client_address dflt
         in case read_line (sock self_request) (buf self_request) 256 limit of
              (Inl e, b, s) \<Rightarrow>
                if \<not> is_ReadError e \<or> error = ''raise'' then
                  (Inl e, Wrapped \<lparr>sock = s, buf = b\<rparr>)
                else (Inr dflt', Wrapped \<lparr>sock = s, buf = b\<rparr>)
            | (Inr line, b, s) \<Rightarrow>
                (case parse_line inet_pton line of
                   Inl e \<Rightarrow>
                     if \<not> is_ParseError e \<or> error = ''raise'' then
                       (Inl e, Wrapped \<lparr>sock = s, buf = b\<rparr>)
                     else (Inr dflt', Wrapped (unread line \<lparr>sock = s, buf = b\<rparr>))
                 | Inr info \<Rightarrow>
                     if authenticate \<and> \<not> hook info then
                       (Inr dflt', Wrapped \<lparr>sock = s, buf = b\<rparr>)
                     else (Inr (Info info), Wrapped \<lparr>sock = s, buf = b\<rparr>))))"

section \<open>Using the adapter\<close>

text \<open>
  The bytes a caller of the adapter will still see: the pending buffer, then what the
  socket delivers.
\<close>

definition pending :: "socket_buffer \<Rightarrow> string" where
  "pending self = getvalue (buf self) @ concat (sock self)"

text \<open>
  The invariant of the buffer: the stream position is at the end of the content.
\<close>

definition at_end :: "bytesio \<Rightarrow> bool" where
  "at_end b = (tell b = length (getvalue b))"

text \<open>
  A caller's calls on one adapter, and what each call gave back: \<open>unread\<close> and
  \<open>close\<close> return nothing, \<open>recv\<close> returns bytes, \<open>read_line\<close> on the adapter's own
  socket and buffer returns a line or raises.
\<close>

datatype call = Unread string | Recv nat | Close | ReadLine nat "int option"

datatype event = Unread_done string | Recv_done nat string | Close_done | ReadLine_done "exn + string"

fun step :: "call \<Rightarrow> socket_buffer \<Rightarrow> event \<times> socket_buffer" where
  "step (Unread bytes) self = (Unread_done bytes, unread bytes self)"
| "step (Recv bufsize) self =
     (Recv_done bufsize (fst (recv bufsize self)), snd (recv bufsize self))"
| "step Close self = (Close_done, close self)"
| "step (ReadLine read_size limit) self =
     (case read_line (sock self) (buf self) read_size limit of
        (r, b, s) \<Rightarrow> (ReadLine_done r, \<lparr>sock = s, buf = b\<rparr>))"

fun run :: "call list \<Rightarrow> socket_buffer \<Rightarrow> event list \<times> socket_buffer" where
  "run [] self = ([], self)"
| "run (c # cs) self =
     (case step c self of
        (e, self') \<Rightarrow> (case run cs self' of (es, self'') \<Rightarrow> (e # es, self'')))"

text \<open>
  The same calls on a plain byte stream, the reference for transparency: \<open>unread\<close>
  puts bytes in front, a \<open>recv\<close> that delivered \<open>d\<close> must have been asked for at
  least \<open>length d\<close> bytes and \<open>d\<close> must be the front of the stream, which it removes.
\<close>

fun replay :: "event list \<Rightarrow> string \<Rightarrow> string option" where
  "replay [] stream = Some stream"
| "replay (Unread_done bytes # es) stream = replay es (bytes @ stream)"
| "replay (Recv_done bufsize d # es) stream =
     (if length d \<le> bufsize \<and> take (length d) stream = d
      then replay es (drop (length d) stream) else None)"
| "replay (e # es) stream = None"

text \<open>The calls of a caller that only reads and restores: \<open>unread\<close> and \<open>recv\<close>.\<close>

fun stream_call :: "call \<Rightarrow> bool" where
  "stream_call (Unread _) = True"
| "stream_call (Recv _) = True"
| "stream_call _ = False"

text \<open>All the bytes that the \<open>recv\<close> calls of a run delivered, in order.\<close>

fun delivered :: "event list \<Rightarrow> string" where
  "delivered [] = []"
| "delivered (Recv_done bufsize d # es) = d @ delivered es"
| "delivered (e # es) = delivered es"

text \<open>
  The bytes a reader of \<open>self.request\<close> has before it, whether the request is still
  the raw socket or already an adapter, and the invariant of the request: an adapter's
  buffer has its position at the end.
\<close>

fun request_stream :: "request \<Rightarrow> string" where
  "request_stream (Raw s) = concat s"
| "request_stream (Wrapped self) = getvalue (buf self) @ concat (sock self)"

fun request_ok :: "request \<Rightarrow> bool" where
  "request_ok (Raw s) = True"
| "request_ok (Wrapped self) = at_end (buf self)"

section \<open>The buffer and the socket, step by step\<close>

lemma write_at_end: "at_end b \<Longrightarrow> getvalue (write_bytes d b) = getvalue b @ d"
  by (simp add: at_end_def write_bytes_def getvalue_def tell_def)

lemma write_at_end_inv: "at_end b \<Longrightarrow> at_end (write_bytes d b)"
  by (simp add: at_end_def write_bytes_def getvalue_def tell_def)

lemma rewrite_value: "getvalue (truncate_bytes (write_bytes d (seek 0 b))) = d"
  by (simp add: write_bytes_def getvalue_def truncate_bytes_def seek_def)

lemma rewrite_at_end: "at_end (truncate_bytes (write_bytes d (seek 0 b)))"
  by (simp add: at_end_def tell_def write_bytes_def getvalue_def truncate_bytes_def seek_def)

lemma prepend_value: "length (getvalue b) \<le> length d \<Longrightarrow> getvalue (write_bytes d (seek 0 b)) = d"
  by (auto simp add: write_bytes_def getvalue_def seek_def)

lemma prepend_at_end: "length (getvalue b) \<le> length d \<Longrightarrow> at_end (write_bytes d (seek 0 b))"
  by (auto simp add: at_end_def tell_def write_bytes_def getvalue_def seek_def)

lemma at_end_empty: "at_end b \<Longrightarrow> (tell b = 0) = (getvalue b = [])"
  by (auto simp: at_end_def)

lemma socket_recv_concat: "fst (socket_recv n s) @ concat (snd (socket_recv n s)) = concat s"
  by (cases s) auto

lemma socket_recv_length: "length (fst (socket_recv n s)) \<le> n"
  by (cases s) auto

lemma socket_recv_ok: "socket_ok s \<Longrightarrow> socket_ok (snd (socket_recv n s))"
  by (cases s) (auto simp: socket_ok_def)

lemma socket_recv_eof: "socket_ok s \<Longrightarrow> 0 < n \<Longrightarrow> fst (socket_recv n s) = [] \<Longrightarrow> s = []"
  by (cases s) (auto simp: socket_ok_def split: if_splits)

lemma startswith_iff: "startswith xs sub = (\<exists>r. xs = sub @ r)"
proof
  assume "startswith xs sub"
  then have "xs = sub @ drop (length sub) xs"
    unfolding startswith_def by (metis append_take_drop_id)
  then show "\<exists>r. xs = sub @ r" ..
next
  assume "\<exists>r. xs = sub @ r"
  then show "startswith xs sub"
    unfolding startswith_def by auto
qed

lemma startswith_length: "startswith xs sub \<Longrightarrow> length sub \<le> length xs"
  by (auto simp: startswith_iff)

lemma startswith_append: "startswith xs sub \<Longrightarrow> startswith (xs @ ys) sub"
  by (auto simp: startswith_iff)

lemma startswith_take: "startswith (take m ys) sub \<Longrightarrow> startswith ys sub"
  by (metis startswith_iff append.assoc append_take_drop_id)

lemma startswith_shorten:
  "startswith (xs @ ys) sub \<Longrightarrow> length sub \<le> length xs \<Longrightarrow> startswith xs sub"
  unfolding startswith_def by simp

lemma find_bytes_bound: "find_bytes sub xs = Some i \<Longrightarrow> i + length sub \<le> length xs"
proof (induction xs arbitrary: i)
  case Nil
  then show ?case by (auto split: if_splits)
next
  case (Cons x xs)
  show ?case
  proof (cases "startswith (x # xs) sub")
    case True
    with Cons.prems startswith_length[OF True] show ?thesis by simp
  next
    case False
    with Cons show ?thesis by auto
  qed
qed

lemma find_bytes_append: "find_bytes sub xs = Some i \<Longrightarrow> find_bytes sub (xs @ ys) = Some i"
proof (induction xs arbitrary: i)
  case Nil
  then show ?case by (cases ys) (auto simp: startswith_def split: if_splits)
next
  case (Cons x xs)
  show ?case
  proof (cases "startswith (x # xs) sub")
    case True
    with Cons.prems startswith_append[OF True, of ys] show ?thesis by simp
  next
    case False
    with Cons.prems obtain j where j: "find_bytes sub xs = Some j" "i = Suc j" by auto
    from find_bytes_bound[OF j(1)] have "length sub \<le> length (x # xs)" by simp
    with False have "\<not> startswith ((x # xs) @ ys) sub"
      using startswith_shorten by blast
    with j Cons.IH[OF j(1)] show ?thesis by simp
  qed
qed

lemma find_bytes_take: "sub \<noteq> [] \<Longrightarrow> find_bytes sub xs = Some i \<Longrightarrow> find_bytes sub (take i xs) = None"
proof (induction xs arbitrary: i)
  case Nil
  then show ?case by simp
next
  case (Cons x xs)
  show ?case
  proof (cases "startswith (x # xs) sub")
    case True
    with Cons.prems show ?thesis by simp
  next
    case False
    with Cons.prems obtain j where j: "find_bytes sub xs = Some j" "i = Suc j" by auto
    have "\<not> startswith (x # take j xs) sub"
      using False startswith_take[of "Suc j" "x # xs" sub] by auto
    with j Cons.IH[OF Cons.prems(1) j(1)] show ?thesis by simp
  qed
qed

lemma find_bytes_prefix:
  "find_bytes sub (xs @ ys) = Some k \<Longrightarrow> k + length sub \<le> length xs \<Longrightarrow> find_bytes sub xs = Some k"
proof (induction xs arbitrary: k)
  case Nil
  then show ?case by (cases ys) (auto split: if_splits)
next
  case (Cons x xs)
  show ?case
  proof (cases "startswith ((x # xs) @ ys) sub")
    case True
    with Cons.prems have k: "k = 0" by simp
    with Cons.prems have "length sub \<le> length (x # xs)" by simp
    with True have "startswith (x # xs) sub"
      using startswith_shorten by blast
    with k show ?thesis by simp
  next
    case False
    with Cons.prems obtain j where j: "find_bytes sub (xs @ ys) = Some j" "k = Suc j" by auto
    have "\<not> startswith (x # xs) sub"
      using False startswith_append[of "x # xs" sub ys] by auto
    moreover have "find_bytes sub xs = Some j"
      using Cons.IH[OF j(1)] Cons.prems(2) j(2) by simp
    ultimately show ?thesis using j by simp
  qed
qed

section \<open>read_line, case by case\<close>

lemma read_line_found:
  "find_bytes CRLF (getvalue buffer) = Some idx \<Longrightarrow> too_long limit (int idx) = None \<Longrightarrow>
   read_line s buffer rs limit =
     (Inr (take (idx + 2) (getvalue buffer)),
      truncate_bytes (write_bytes (drop (idx + 2) (getvalue buffer)) (seek 0 buffer)), s)"
  by (simp add: read_line.simps[of s buffer] Let_def)

lemma read_line_found_long:
  "find_bytes CRLF (getvalue buffer) = Some idx \<Longrightarrow> too_long limit (int idx) = Some e \<Longrightarrow>
   read_line s buffer rs limit = (Inl e, buffer, s)"
  by (simp add: read_line.simps[of s buffer] Let_def)

lemma read_line_long:
  "find_bytes CRLF (getvalue buffer) = None \<Longrightarrow>
   too_long limit (int (length (getvalue buffer))) = Some e \<Longrightarrow>
   read_line s buffer rs limit = (Inl e, buffer, s)"
  by (simp add: read_line.simps[of s buffer] Let_def)

lemma read_line_eof:
  "find_bytes CRLF (getvalue buffer) = None \<Longrightarrow>
   too_long limit (int (length (getvalue buffer))) = None \<Longrightarrow>
   fst (socket_recv rs s) = [] \<Longrightarrow>
   read_line s buffer rs limit =
     (Inl (NoLine (int (length (getvalue buffer)))), buffer, snd (socket_recv rs s))"
  by (simp add: read_line.simps[of s buffer] Let_def)

lemma read_line_more:
  "find_bytes CRLF (getvalue buffer) = None \<Longrightarrow>
   too_long limit (int (length (getvalue buffer))) = None \<Longrightarrow>
   fst (socket_recv rs s) \<noteq> [] \<Longrightarrow>
   read_line s buffer rs limit =
     read_line (snd (socket_recv rs s)) (write_bytes (fst (socket_recv rs s)) buffer) rs limit"
  by (simp add: read_line.simps[of s buffer] Let_def)

lemma read_line_stream:
  "at_end buffer \<Longrightarrow> read_line s buffer rs limit = (r, b', s') \<Longrightarrow>
   at_end b' \<and> (case r of Inl e \<Rightarrow> [] | Inr line \<Rightarrow> line) @ getvalue b' @ concat s'
      = getvalue buffer @ concat s"
proof (induction s buffer rs limit arbitrary: r b' s' rule: read_line.induct)
  case (1 s buffer rs limit)
  let ?data = "getvalue buffer"
  show ?case
  proof (cases "find_bytes CRLF ?data")
    case (Some idx)
    note found = Some
    show ?thesis
    proof (cases "too_long limit (int idx)")
      case None
      from read_line_found[OF found None, of s rs] "1.prems"(2)
      show ?thesis by (auto simp: rewrite_value rewrite_at_end)
    next
      case (Some e)
      from read_line_found_long[OF found Some, of s rs] "1.prems"
      show ?thesis by auto
    qed
  next
    case None
    note nf = None
    show ?thesis
    proof (cases "too_long limit (int (length ?data))")
      case (Some e)
      from read_line_long[OF nf Some, of s rs] "1.prems"
      show ?thesis by auto
    next
      case None
      let ?r = "socket_recv rs s"
      show ?thesis
      proof (cases "fst ?r = []")
        case True
        from read_line_eof[OF nf None True] "1.prems" socket_recv_concat[of rs s] True
        show ?thesis by auto
      next
        case False
        from read_line_more[OF nf None False] "1.prems"(2)
        have rec: "read_line (snd ?r) (write_bytes (fst ?r) buffer) rs limit = (r, b', s')"
          by simp
        have ae: "at_end (write_bytes (fst ?r) buffer)"
          using "1.prems"(1) by (rule write_at_end_inv)
        have "getvalue (write_bytes (fst ?r) buffer) @ concat (snd ?r) = ?data @ concat s"
          using write_at_end[OF "1.prems"(1), of "fst ?r"] socket_recv_concat[of rs s]
          by simp
        with "1.IH"[OF refl nf None refl False ae rec]
        show ?thesis by simp
      qed
    qed
  qed
qed

lemma too_long_Some:
  "too_long limit n = Some e \<Longrightarrow> \<exists>l. e = LineTooLong n l \<and> limit = Some l \<and> l \<noteq> 0 \<and> n + 2 > l"
  by (auto simp: too_long_def split: option.splits if_splits)

lemma read_line_terminated:
  "at_end buffer \<Longrightarrow> socket_ok s \<Longrightarrow> 0 < rs \<Longrightarrow>
   find_bytes CRLF (getvalue buffer @ concat s) = Some k \<Longrightarrow>
   (fst (read_line s buffer rs limit) = Inr (take (k + 2) (getvalue buffer @ concat s))
      \<and> too_long limit (int k) = None)
   \<or> (\<exists>n l. fst (read_line s buffer rs limit) = Inl (LineTooLong n l)
        \<and> limit = Some l \<and> l \<noteq> 0 \<and> n + 2 > l \<and> n \<le> int k + 1)"
proof (induction s buffer rs limit rule: read_line.induct)
  case (1 s buffer rs limit)
  let ?data = "getvalue buffer"
  have len2: "length CRLF = 2" by (simp add: CRLF_def)
  show ?case
  proof (cases "find_bytes CRLF ?data")
    case (Some idx)
    note found = Some
    from find_bytes_append[OF found, of "concat s"] "1.prems"(4) have k: "idx = k" by simp
    from find_bytes_bound[OF found] len2 have "idx + 2 \<le> length ?data" by simp
    then have tk: "take (idx + 2) ?data = take (k + 2) (?data @ concat s)"
      using k by simp
    show ?thesis
    proof (cases "too_long limit (int idx)")
      case None
      from read_line_found[OF found None, of s rs] tk None k
      show ?thesis by simp
    next
      case (Some e)
      from read_line_found_long[OF found Some, of s rs] too_long_Some[OF Some] k
      show ?thesis by auto
    qed
  next
    case None
    note nf = None
    have short: "length ?data < k + 2"
    proof (rule ccontr)
      assume "\<not> length ?data < k + 2"
      then have "k + length CRLF \<le> length ?data" using len2 by simp
      from find_bytes_prefix[OF "1.prems"(4) this] nf show False by simp
    qed
    show ?thesis
    proof (cases "too_long limit (int (length ?data))")
      case (Some e)
      from read_line_long[OF nf Some, of s rs] too_long_Some[OF Some] short
      show ?thesis by auto
    next
      case None
      let ?r = "socket_recv rs s"
      show ?thesis
      proof (cases "fst ?r = []")
        case True
        from socket_recv_eof[OF "1.prems"(2,3) True] "1.prems"(4) nf
        show ?thesis by simp
      next
        case False
        have ae: "at_end (write_bytes (fst ?r) buffer)"
          using "1.prems"(1) by (rule write_at_end_inv)
        have ok: "socket_ok (snd ?r)"
          using "1.prems"(2) by (rule socket_recv_ok)
        have same: "getvalue (write_bytes (fst ?r) buffer) @ concat (snd ?r) = ?data @ concat s"
          using write_at_end[OF "1.prems"(1), of "fst ?r"] socket_recv_concat[of rs s]
          by simp
        from "1.prems"(4) same
        have fk: "find_bytes CRLF (getvalue (write_bytes (fst ?r) buffer) @ concat (snd ?r)) = Some k"
          by simp
        from "1.IH"[OF refl nf None refl False ae ok "1.prems"(3) fk]
        show ?thesis
          unfolding read_line_more[OF nf None False] same .
      qed
    qed
  qed
qed

lemma read_line_too_long:
  "at_end buffer \<Longrightarrow> fst (read_line s buffer rs limit) = Inl (LineTooLong n l) \<Longrightarrow>
   limit = Some l \<and> l \<noteq> 0 \<and> 0 \<le> n \<and> n + 2 > l
   \<and> nat n \<le> length (getvalue buffer @ concat s)
   \<and> find_bytes CRLF (take (nat n) (getvalue buffer @ concat s)) = None"
proof (induction s buffer rs limit rule: read_line.induct)
  case (1 s buffer rs limit)
  let ?data = "getvalue buffer"
  have ne: "CRLF \<noteq> []" by (simp add: CRLF_def)
  show ?case
  proof (cases "find_bytes CRLF ?data")
    case (Some idx)
    note found = Some
    from find_bytes_bound[OF found] have b: "idx \<le> length ?data" by simp
    show ?thesis
    proof (cases "too_long limit (int idx)")
      case None
      from read_line_found[OF found None, of s rs] "1.prems"(2)
      show ?thesis by simp
    next
      case (Some e)
      from read_line_found_long[OF found Some, of s rs] too_long_Some[OF Some] "1.prems"(2)
        find_bytes_take[OF ne found] b
      show ?thesis by auto
    qed
  next
    case None
    note nf = None
    show ?thesis
    proof (cases "too_long limit (int (length ?data))")
      case (Some e)
      from read_line_long[OF nf Some, of s rs] too_long_Some[OF Some] "1.prems"(2) nf
      show ?thesis by auto
    next
      case None
      let ?r = "socket_recv rs s"
      show ?thesis
      proof (cases "fst ?r = []")
        case True
        from read_line_eof[OF nf None True] "1.prems"(2)
        show ?thesis by simp
      next
        case False
        have ae: "at_end (write_bytes (fst ?r) buffer)"
          using "1.prems"(1) by (rule write_at_end_inv)
        have same: "getvalue (write_bytes (fst ?r) buffer) @ concat (snd ?r) = ?data @ concat s"
          using write_at_end[OF "1.prems"(1), of "fst ?r"] socket_recv_concat[of rs s]
          by simp
        from "1.prems"(2) have rec:
          "fst (read_line (snd ?r) (write_bytes (fst ?r) buffer) rs limit) = Inl (LineTooLong n l)"
          unfolding read_line_more[OF nf None False] .
        from "1.IH"[OF refl nf None refl False ae rec]
        show ?thesis unfolding same .
      qed
    qed
  qed
qed

text \<open>\<open>find_bytes\<close> gives an occurrence, and the first one.\<close>

lemma find_bytes_at:
  "find_bytes sub xs = Some k \<Longrightarrow> take (length sub) (drop k xs) = sub"
proof (induction xs arbitrary: k)
  case Nil
  then show ?case by (auto split: if_splits)
next
  case (Cons x xs)
  then show ?case by (auto simp: startswith_def split: if_splits)
qed

lemma find_bytes_first:
  "find_bytes sub xs = Some k \<Longrightarrow> j < k \<Longrightarrow> take (length sub) (drop j xs) \<noteq> sub"
proof (induction xs arbitrary: k j)
  case Nil
  then show ?case by (auto split: if_splits)
next
  case (Cons x xs)
  show ?case
  proof (cases j)
    case 0
    with Cons.prems show ?thesis by (auto simp: startswith_def split: if_splits)
  next
    case (Suc j')
    with Cons.prems Cons.IH[of _ j'] show ?thesis by (auto split: if_splits)
  qed
qed

section \<open>The adapter, call by call\<close>

lemma unread_value: "getvalue (buf (unread bytes self)) = bytes @ getvalue (buf self)"
  by (simp add: unread_def Let_def prepend_value)

lemma unread_at_end: "at_end (buf (unread bytes self))"
  by (simp add: unread_def Let_def prepend_at_end)

lemma unread_sock: "sock (unread bytes self) = sock self"
  by (simp add: unread_def Let_def)

lemma unread_pending: "pending (unread bytes self) = bytes @ pending self"
  by (simp add: pending_def unread_value unread_sock)

lemma recv_buffered:
  "tell (buf self) \<noteq> 0 \<Longrightarrow>
   fst (recv n self) = take n (getvalue (buf self))
   \<and> getvalue (buf (snd (recv n self))) = drop n (getvalue (buf self))
   \<and> at_end (buf (snd (recv n self)))
   \<and> sock (snd (recv n self)) = sock self"
  by (auto simp: recv_def Let_def rewrite_value rewrite_at_end)
     (auto simp: getvalue_def truncate_bytes_def seek_def at_end_def tell_def)

lemma recv_delegated:
  "tell (buf self) = 0 \<Longrightarrow>
   fst (recv n self) = fst (socket_recv n (sock self))
   \<and> buf (snd (recv n self)) = buf self
   \<and> sock (snd (recv n self)) = snd (socket_recv n (sock self))"
  by (simp add: recv_def Let_def)

lemma recv_length: "length (fst (recv n self)) \<le> n"
  by (cases "tell (buf self) = 0") (simp_all add: recv_buffered recv_delegated socket_recv_length)

lemma recv_at_end: "at_end (buf self) \<Longrightarrow> at_end (buf (snd (recv n self)))"
  by (cases "tell (buf self) = 0") (simp_all add: recv_buffered recv_delegated)

lemma recv_pending:
  "at_end (buf self) \<Longrightarrow> fst (recv n self) @ pending (snd (recv n self)) = pending self"
proof (cases "tell (buf self) = 0")
  case True
  assume "at_end (buf self)"
  with True have "getvalue (buf self) = []" by (simp add: at_end_empty)
  with True show ?thesis
    by (simp add: pending_def recv_delegated socket_recv_concat)
next
  case False
  then show ?thesis by (simp add: pending_def recv_buffered)
qed

lemma close_at_end: "at_end (buf (close self))"
  by (simp add: close_def at_end_def tell_def getvalue_def truncate_bytes_def seek_def)

lemma step_at_end: "at_end (buf self) \<Longrightarrow> at_end (buf (snd (step c self)))"
proof (cases c)
  case (ReadLine rs limit)
  assume ae: "at_end (buf self)"
  obtain r b s where res: "read_line (sock self) (buf self) rs limit = (r, b, s)"
    by (cases "read_line (sock self) (buf self) rs limit") auto
  from read_line_stream[OF ae res] ReadLine res show ?thesis by simp
qed (simp_all add: unread_at_end recv_at_end close_at_end)

lemma run_at_end: "at_end (buf self) \<Longrightarrow> at_end (buf (snd (run cs self)))"
proof (induction cs arbitrary: self)
  case Nil
  then show ?case by simp
next
  case (Cons c cs)
  from Cons.IH[OF step_at_end[OF Cons.prems, of c]]
  show ?case by (simp add: split_beta)
qed

lemma run_replay:
  "at_end (buf self) \<Longrightarrow> list_all stream_call cs \<Longrightarrow>
   replay (fst (run cs self)) (pending self) = Some (pending (snd (run cs self)))"
proof (induction cs arbitrary: self)
  case Nil
  then show ?case by simp
next
  case (Cons c cs)
  from Cons.prems(2) have rest: "list_all stream_call cs" by simp
  show ?case
  proof (cases c)
    case (Unread bytes)
    from Cons.IH[OF unread_at_end rest, of bytes self] Unread
    show ?thesis by (simp add: split_beta unread_pending)
  next
    case (Recv n)
    let ?d = "fst (recv n self)"
    from recv_pending[OF Cons.prems(1), of n]
    have "take (length ?d) (pending self) = ?d"
      and "drop (length ?d) (pending self) = pending (snd (recv n self))"
      by (metis append_eq_conv_conj)+
    with Cons.IH[OF recv_at_end[OF Cons.prems(1)] rest, of n] Recv recv_length[of n self]
    show ?thesis by (simp add: split_beta)
  next
    case Close
    with Cons.prems(2) show ?thesis by simp
  next
    case (ReadLine rs limit)
    with Cons.prems(2) show ?thesis by simp
  qed
qed

lemma recv_after_unread_short:
  "n \<le> length bytes \<Longrightarrow> fst (recv n (unread bytes self)) = take n bytes"
proof (cases "tell (buf (unread bytes self)) = 0")
  case True
  assume n: "n \<le> length bytes"
  from True unread_at_end[of bytes self] have "getvalue (buf (unread bytes self)) = []"
    by (simp add: at_end_empty)
  then have "bytes = []" by (simp add: unread_value)
  with n have "n = 0" by simp
  with \<open>bytes = []\<close> True show ?thesis
    using socket_recv_length[of 0 "sock (unread bytes self)"] by (simp add: recv_delegated)
next
  case False
  assume "n \<le> length bytes"
  with False show ?thesis by (simp add: recv_buffered unread_value)
qed

lemma recv_after_unread_long:
  "length bytes < n \<Longrightarrow> take (length bytes) (fst (recv n (unread bytes self))) = bytes"
proof (cases "tell (buf (unread bytes self)) = 0")
  case True
  from True unread_at_end[of bytes self] have "getvalue (buf (unread bytes self)) = []"
    by (simp add: at_end_empty)
  then have "bytes = []" by (simp add: unread_value)
  then show ?thesis by simp
next
  case False
  assume "length bytes < n"
  with False show ?thesis by (simp add: recv_buffered unread_value)
qed

lemma recv_empty:
  "at_end (buf self) \<Longrightarrow> getvalue (buf self) = [] \<Longrightarrow>
   recv n self = (fst (socket_recv n (sock self)), self\<lparr>sock := snd (socket_recv n (sock self))\<rparr>)"
  by (simp add: recv_def Let_def at_end_empty)

lemma recv_socket_ok: "socket_ok (sock self) \<Longrightarrow> socket_ok (sock (snd (recv n self)))"
  by (cases "tell (buf self) = 0") (simp_all add: recv_buffered recv_delegated socket_recv_ok)

lemma recv_progress:
  assumes "at_end (buf self)" and "socket_ok (sock self)" and "0 < n" and "pending self \<noteq> []"
  shows "fst (recv n self) \<noteq> []"
proof (cases "tell (buf self) = 0")
  case True
  with assms(1) have e: "getvalue (buf self) = []" by (simp add: at_end_empty)
  with assms(4) have "sock self \<noteq> []" by (auto simp: pending_def)
  with socket_recv_eof[OF assms(2,3)] have "fst (socket_recv n (sock self)) \<noteq> []" by blast
  with True show ?thesis by (simp add: recv_delegated)
next
  case False
  with assms(1) have "getvalue (buf self) \<noteq> []" by (simp add: at_end_empty)
  with False assms(3) show ?thesis by (simp add: recv_buffered)
qed

lemma recv_drains:
  "at_end (buf self) \<Longrightarrow> socket_ok (sock self) \<Longrightarrow> 0 < n \<Longrightarrow> length (pending self) \<le> m \<Longrightarrow>
   delivered (fst (run (replicate m (Recv n)) self)) = pending self"
proof (induction m arbitrary: self)
  case 0
  then show ?case by simp
next
  case (Suc m)
  let ?d = "fst (recv n self)" and ?self' = "snd (recv n self)"
  have split_stream: "?d @ pending ?self' = pending self"
    using Suc.prems(1) by (rule recv_pending)
  have "length (pending ?self') \<le> m"
  proof (cases "pending self = []")
    case True
    with split_stream show ?thesis by simp
  next
    case False
    from recv_progress[OF Suc.prems(1,2,3) False] have "0 < length ?d" by simp
    moreover from split_stream have "length ?d + length (pending ?self') = length (pending self)"
      by (metis length_append)
    ultimately show ?thesis using Suc.prems(4) by linarith
  qed
  from Suc.IH[OF recv_at_end[OF Suc.prems(1)] recv_socket_ok[OF Suc.prems(2)] Suc.prems(3) this]
  have "delivered (fst (run (replicate m (Recv n)) ?self')) = pending ?self'" .
  with split_stream show ?case by (simp add: split_beta)
qed

lemma unread_then_drain:
  assumes "socket_ok (sock self)" and "0 < n"
    and "length (bytes @ getvalue (buf self) @ concat (sock self)) \<le> m"
  shows "delivered (fst (run (Unread bytes # replicate m (Recv n)) self))
         = bytes @ getvalue (buf self) @ concat (sock self)"
proof -
  have p: "pending (unread bytes self) = bytes @ getvalue (buf self) @ concat (sock self)"
    unfolding unread_pending by (simp add: pending_def)
  have "socket_ok (sock (unread bytes self))"
    using assms(1) by (simp add: unread_sock)
  from recv_drains[OF unread_at_end this assms(2), where m = m] assms(3) p
  show ?thesis by (simp add: split_beta)
qed

lemma recv_unread_then_socket:
  assumes "at_end (buf self)" and "getvalue (buf self) = []" and "bytes \<noteq> []"
    and "length bytes \<le> n"
  shows "fst (recv n (unread bytes self)) = bytes
       \<and> fst (recv m (snd (recv n (unread bytes self)))) = fst (socket_recv m (sock self))"
proof -
  let ?u = "unread bytes self"
  have v: "getvalue (buf ?u) = bytes" using assms(2) by (simp add: unread_value)
  with assms(3) unread_at_end[of bytes self] have t: "tell (buf ?u) \<noteq> 0"
    by (simp add: at_end_empty)
  from recv_buffered[OF t, of n] v assms(4)
  have d: "fst (recv n ?u) = bytes" and e: "getvalue (buf (snd (recv n ?u))) = []"
    and a: "at_end (buf (snd (recv n ?u)))" and s: "sock (snd (recv n ?u)) = sock self"
    by (simp_all add: unread_sock)
  from recv_empty[OF a e, of m] s d show ?thesis by simp
qed

lemma read_line_socket_ok:
  "socket_ok s \<Longrightarrow> socket_ok (snd (snd (read_line s buffer rs limit)))"
proof (induction s buffer rs limit rule: read_line.induct)
  case (1 s buffer rs limit)
  let ?data = "getvalue buffer"
  show ?case
  proof (cases "find_bytes CRLF ?data")
    case (Some idx)
    note found = Some
    show ?thesis
    proof (cases "too_long limit (int idx)")
      case None
      from read_line_found[OF found None, of s rs] "1.prems" show ?thesis by simp
    next
      case (Some e')
      from read_line_found_long[OF found Some, of s rs] "1.prems" show ?thesis by simp
    qed
  next
    case None
    note nf = None
    show ?thesis
    proof (cases "too_long limit (int (length ?data))")
      case (Some e')
      from read_line_long[OF nf Some, of s rs] "1.prems" show ?thesis by simp
    next
      case None
      show ?thesis
      proof (cases "fst (socket_recv rs s) = []")
        case True
        from read_line_eof[OF nf None True] socket_recv_ok[OF "1.prems", of rs]
        show ?thesis by simp
      next
        case False
        from "1.IH"[OF refl nf None refl False socket_recv_ok[OF "1.prems"]]
        show ?thesis unfolding read_line_more[OF nf None False] .
      qed
    qed
  qed
qed

section \<open>Splitting into fields\<close>


lemma split_nosep: "sep \<notin> set a \<Longrightarrow> split sep a = [a]"
  by (induction a) auto

lemma split_field: "sep \<notin> set a \<Longrightarrow> split sep (a @ sep # rest) = a # split sep rest"
  by (induction a) (auto split: list.splits)


lemma endswith_append: "endswith (xs @ p) p"
  by (simp add: endswith_def)

section \<open>parse_line, check by check\<close>

lemma strip_suffix: "take (length (xs @ p) - length p) (xs @ p) = xs"
  by simp

lemma line_parts_wire_format:
  assumes "CHR '' '' \<notin> set inet" "CHR '' '' \<notin> set src" "CHR '' '' \<notin> set dst"
    "CHR '' '' \<notin> set sp" "CHR '' '' \<notin> set dp"
  shows "line_parts (wire_format inet src dst sp dp) = [''PROXY'', inet, src, dst, sp, dp]"
proof -
  define body where
    "body = ''PROXY'' @ CHR '' '' # inet @ CHR '' '' # src @ CHR '' '' # dst @ CHR '' '' # sp @ CHR '' '' # dp"
  have w: "wire_format inet src dst sp dp = body @ CRLF"
    by (simp add: wire_format_def body_def)
  have "line_parts (wire_format inet src dst sp dp) = split (CHR '' '') body"
    unfolding line_parts_def w strip_suffix ..
  also have "\<dots> = ''PROXY'' # split (CHR '' '') (inet @ CHR '' '' # src @ CHR '' '' # dst @ CHR '' '' # sp @ CHR '' '' # dp)"
    unfolding body_def by (rule split_field) simp
  also have "\<dots> = [''PROXY'', inet, src, dst, sp, dp]"
    using assms by (simp add: split_field split_nosep)
  finally show ?thesis .
qed

lemma wire_format_checks:
  "startswith (wire_format inet src dst sp dp) ''PROXY'' \<and> endswith (wire_format inet src dst sp dp) CRLF"
proof -
  have "wire_format inet src dst sp dp = (''PROXY '' @ inet @ '' '' @ src @ '' '' @ dst @ '' '' @ sp @ '' '' @ dp) @ CRLF"
    by (simp add: wire_format_def)
  then have "endswith (wire_format inet src dst sp dp) CRLF"
    using endswith_append by metis
  moreover have "startswith (wire_format inet src dst sp dp) ''PROXY''"
    by (simp add: wire_format_def startswith_def)
  ultimately show ?thesis by simp
qed

lemma parse_line_success:
  "parse_line ip line = Inr info \<Longrightarrow>
   startswith line ''PROXY'' \<and> endswith line CRLF \<and> length (line_parts line) = 6
   \<and> check_addresses ip line (line_parts line ! 1) (line_parts line ! 2) (line_parts line ! 3) = None
   \<and> source_address info = line_parts line ! 2
   \<and> destination_address info = line_parts line ! 3
   \<and> py_int (line_parts line ! 4) = Some (source_port info)
   \<and> py_int (line_parts line ! 5) = Some (destination_port info)"
  by (auto simp: parse_line_def Let_def split: if_splits option.splits)

lemma parse_line_ports:
  "startswith line ''PROXY'' \<Longrightarrow> endswith line CRLF \<Longrightarrow> length (line_parts line) = 6 \<Longrightarrow>
   check_addresses ip line (line_parts line ! 1) (line_parts line ! 2) (line_parts line ! 3) = None \<Longrightarrow>
   parse_line ip line =
     (case (py_int (line_parts line ! 4), py_int (line_parts line ! 5)) of
        (Some src_port, Some dst_port) \<Rightarrow>
           Inr \<lparr>source_address = line_parts line ! 2, source_port = src_port,
                destination_address = line_parts line ! 3, destination_port = dst_port\<rparr>
      | _ \<Rightarrow> Inl (InvalidLine line ''Invalid port''))"
  by (simp add: parse_line_def Let_def)

lemma check_addresses_None:
  "(check_addresses ip line inet src dst = None) =
   (inet = ''TCP4'' \<and> ip AF_INET src = Converted \<and> ip AF_INET dst = Converted
    \<or> inet = ''TCP6'' \<and> ip AF_INET6 src = Converted \<and> ip AF_INET6 dst = Converted)"
  by (auto simp: check_addresses_def convert_both_def split: pton.splits)

section \<open>Kinds of failure\<close>

lemma read_line_error: "fst (read_line s buffer rs limit) = Inl e \<Longrightarrow> is_ReadError e"
proof (induction s buffer rs limit rule: read_line.induct)
  case (1 s buffer rs limit)
  let ?data = "getvalue buffer"
  show ?case
  proof (cases "find_bytes CRLF ?data")
    case (Some idx)
    note found = Some
    show ?thesis
    proof (cases "too_long limit (int idx)")
      case None
      from read_line_found[OF found None, of s rs] "1.prems" show ?thesis by simp
    next
      case (Some e')
      from read_line_found_long[OF found Some, of s rs] too_long_Some[OF Some] "1.prems"
      show ?thesis by auto
    qed
  next
    case None
    note nf = None
    show ?thesis
    proof (cases "too_long limit (int (length ?data))")
      case (Some e')
      from read_line_long[OF nf Some, of s rs] too_long_Some[OF Some] "1.prems"
      show ?thesis by auto
    next
      case None
      show ?thesis
      proof (cases "fst (socket_recv rs s) = []")
        case True
        from read_line_eof[OF nf None True] "1.prems" show ?thesis by auto
      next
        case False
        from "1.prems" "1.IH"[OF refl nf None refl False]
        show ?thesis unfolding read_line_more[OF nf None False] by simp
      qed
    qed
  qed
qed

lemma parse_line_error: "parse_line ip line = Inl e \<Longrightarrow> is_ParseError e \<or> e = TypeError"
  by (auto simp: parse_line_def check_addresses_def Let_def split: if_splits option.splits pton.splits)

text \<open>
  Every \<open>InvalidLine\<close> that \<open>parse_line\<close> raises, but the one of the port branch,
  stores the offending line in the exception.
\<close>

lemma parse_line_error_payload:
  "parse_line ip line = Inl e \<Longrightarrow>
   invalid_line_line e = line \<or> e = InvalidLine line ''Invalid port'' \<or> e = TypeError"
  by (auto simp: parse_line_def check_addresses_def Let_def split: if_splits option.splits pton.splits)



lemma resolve_rejected:
  "\<not> proxy_authenticate client_address info \<Longrightarrow> resolve client_address dflt \<noteq> Info info"
  by (cases dflt) (auto simp: resolve_def proxy_authenticate_def prod_eq_iff)

section \<open>The properties of the specification\<close>

text \<open>
  C1. Adapter transparency. From an adapter whose buffer position is at the end of its
  content (a fresh \<open>SocketBuffer\<close> is one), any interleaving of \<open>unread\<close> and \<open>recv\<close>
  calls is what the same calls give on the plain byte stream \<open>pending\<close>, the buffered
  bytes followed by the socket's: \<open>unread\<close> puts its bytes in front of that stream and
  every \<open>recv\<close> delivers a front piece of it, at most as long as asked, and a
  non-empty one as long as the stream holds bytes. Reading on after \<open>unread(b)\<close>
  delivers exactly \<open>b\<close>, then the buffered bytes, then the socket's whole stream.
  Right after \<open>unread(b)\<close>, \<open>recv(n)\<close> returns \<open>b[:n]\<close> when \<open>n \<le> len(b)\<close> and
  delivers all of \<open>b\<close> first when \<open>n > len(b)\<close>. While the buffer holds bytes,
  \<open>recv\<close> returns the front of the buffer and leaves the socket as it is; on an empty
  buffer it is the socket's own \<open>recv\<close>, so after \<open>b\<close> has been delivered the next
  \<open>recv\<close> continues into the socket's data.
\<close>

theorem adapter_transparency:
  assumes "at_end (buf self)" and "list_all stream_call calls"
  shows "replay (fst (run calls self)) (pending self) = Some (pending (snd (run calls self)))
    \<and> pending (unread bytes self) = bytes @ pending self
    \<and> fst (recv n self) @ pending (snd (recv n self)) = pending self
    \<and> (n \<le> length bytes \<longrightarrow> fst (recv n (unread bytes self)) = take n bytes)
    \<and> (length bytes < n \<longrightarrow> take (length bytes) (fst (recv n (unread bytes self))) = bytes)
    \<and> length (fst (recv n self)) \<le> n
    \<and> (getvalue (buf self) \<noteq> [] \<longrightarrow>
          fst (recv n self) = take n (getvalue (buf self))
          \<and> sock (snd (recv n self)) = sock self)
    \<and> (getvalue (buf self) = [] \<longrightarrow>
          recv n self = (fst (socket_recv n (sock self)),
                         self\<lparr>sock := snd (socket_recv n (sock self))\<rparr>))
    \<and> (socket_ok (sock self) \<and> 0 < n \<and> pending self \<noteq> [] \<longrightarrow> fst (recv n self) \<noteq> [])
    \<and> (socket_ok (sock self) \<and> 0 < n
          \<and> length (bytes @ getvalue (buf self) @ concat (sock self)) \<le> m \<longrightarrow>
          delivered (fst (run (Unread bytes # replicate m (Recv n)) self))
            = bytes @ getvalue (buf self) @ concat (sock self))
    \<and> (getvalue (buf self) = [] \<and> bytes \<noteq> [] \<and> length bytes \<le> n \<longrightarrow>
          fst (recv n (unread bytes self)) = bytes
          \<and> fst (recv m (snd (recv n (unread bytes self)))) = fst (socket_recv m (sock self)))"
proof -
  have buffered: "fst (recv n self) = take n (getvalue (buf self))
      \<and> sock (snd (recv n self)) = sock self"
    if "getvalue (buf self) \<noteq> []"
  proof -
    from that assms(1) have "tell (buf self) \<noteq> 0" by (simp add: at_end_empty)
    then show ?thesis by (simp add: recv_buffered)
  qed
  have delegated: "recv n self = (fst (socket_recv n (sock self)),
                         self\<lparr>sock := snd (socket_recv n (sock self))\<rparr>)"
    if "getvalue (buf self) = []"
    using assms(1) that by (rule recv_empty)
  have progress: "fst (recv n self) \<noteq> []"
    if "socket_ok (sock self) \<and> 0 < n \<and> pending self \<noteq> []"
    using recv_progress[OF assms(1)] that by blast
  have drain: "delivered (fst (run (Unread bytes # replicate m (Recv n)) self))
            = bytes @ getvalue (buf self) @ concat (sock self)"
    if "socket_ok (sock self) \<and> 0 < n
          \<and> length (bytes @ getvalue (buf self) @ concat (sock self)) \<le> m"
    using unread_then_drain[of self n bytes m] that by blast
  have onward: "fst (recv n (unread bytes self)) = bytes
          \<and> fst (recv m (snd (recv n (unread bytes self)))) = fst (socket_recv m (sock self))"
    if "getvalue (buf self) = [] \<and> bytes \<noteq> [] \<and> length bytes \<le> n"
    using recv_unread_then_socket[OF assms(1), of bytes n m] that by blast
  from buffered delegated progress drain onward
    run_replay[OF assms] unread_pending[of bytes self] recv_pending[OF assms(1), of n]
    recv_after_unread_short[of n bytes self] recv_after_unread_long[of bytes n self]
    recv_length[of n self]
  show ?thesis by blast
qed

theorem adapter_transparency_witness:
  "at_end (buf (SocketBuffer [''hello'', ''world'']))
   \<and> list_all stream_call [Unread ''abc'', Recv 2, Unread ''xy'', Recv 10, Recv 10]
   \<and> replay (fst (run [Unread ''abc'', Recv 2, Unread ''xy'', Recv 10, Recv 10]
                 (SocketBuffer [''hello'', ''world''])))
        (pending (SocketBuffer [''hello'', ''world'']))
      = Some (pending (snd (run [Unread ''abc'', Recv 2, Unread ''xy'', Recv 10, Recv 10]
                 (SocketBuffer [''hello'', ''world'']))))
   \<and> fst (recv 2 (unread ''abc'' (SocketBuffer [''hello'', ''world'']))) = ''ab''
   \<and> fst (recv 7 (unread ''abc'' (SocketBuffer [''hello'', ''world'']))) = ''abc''
   \<and> fst (recv 7 (snd (recv 7 (unread ''abc'' (SocketBuffer [''hello'', ''world''])))))
       = ''hello''
   \<and> delivered (fst (run (Unread ''abc'' # replicate 13 (Recv 4))
        (SocketBuffer [''hello'', ''world''])))
       = ''abchelloworld''"
proof -
  let ?a = "SocketBuffer [''hello'', ''world'']"
  have h1: "at_end (buf ?a)"
    by (simp add: SocketBuffer_def BytesIO_def at_end_def tell_def getvalue_def)
  have h2: "list_all stream_call [Unread ''abc'', Recv 2, Unread ''xy'', Recv 10, Recv 10]"
    by simp
  have e: "getvalue (buf ?a) = []" and s: "sock ?a = [''hello'', ''world'']"
    by (simp_all add: SocketBuffer_def BytesIO_def getvalue_def)
  have ok: "socket_ok (sock ?a)"
    by (simp add: s socket_ok_def)
  note t2 = adapter_transparency[OF h1 h2, of "''abc''" 2 13]
  note t7 = adapter_transparency[OF h1 h2, of "''abc''" 7 7]
  note t4 = adapter_transparency[OF h1 h2, of "''abc''" 4 13]
  note c1 = t2[THEN conjunct1]
  from t2 have "2 \<le> length ''abc'' \<longrightarrow> fst (recv 2 (unread ''abc'' ?a)) = take 2 ''abc''"
    by blast
  then have c2: "fst (recv 2 (unread ''abc'' ?a)) = ''ab''"
    by simp
  from t7 have "getvalue (buf ?a) = [] \<and> ''abc'' \<noteq> [] \<and> length ''abc'' \<le> 7 \<longrightarrow>
      fst (recv 7 (unread ''abc'' ?a)) = ''abc''
      \<and> fst (recv 7 (snd (recv 7 (unread ''abc'' ?a)))) = fst (socket_recv 7 (sock ?a))"
    by blast
  with e have c3: "fst (recv 7 (unread ''abc'' ?a)) = ''abc''"
    and c4: "fst (recv 7 (snd (recv 7 (unread ''abc'' ?a)))) = ''hello''"
    by (simp_all add: s)
  from t4 have "socket_ok (sock ?a) \<and> (0::nat) < 4
      \<and> length (''abc'' @ getvalue (buf ?a) @ concat (sock ?a)) \<le> 13 \<longrightarrow>
      delivered (fst (run (Unread ''abc'' # replicate 13 (Recv 4)) ?a))
        = ''abc'' @ getvalue (buf ?a) @ concat (sock ?a)"
    by blast
  with ok e have c5: "delivered (fst (run (Unread ''abc'' # replicate 13 (Recv 4)) ?a))
      = ''abchelloworld''"
    by (simp add: s)
  from h1 h2 c1 c2 c3 c4 c5 show ?thesis by blast
qed

text \<open>
  C10. The position of the buffer is at the end of its content in a fresh adapter, and
  \<open>unread\<close>, \<open>recv\<close>, \<open>close\<close> and \<open>read_line\<close> each keep it there, so it is there
  after any sequence of these calls; then the position is zero exactly when the buffer
  is empty, which is the test \<open>not self.buf.tell()\<close> of \<open>recv\<close>.
\<close>

theorem position_invariant:
  assumes "at_end (buf self)"
  shows "at_end (buf (SocketBuffer s))
    \<and> at_end (buf (unread bytes self))
    \<and> at_end (buf (snd (recv n self)))
    \<and> at_end (buf (close self))
    \<and> at_end (fst (snd (read_line (sock self) (buf self) read_size limit)))
    \<and> at_end (buf (snd (run calls self)))
    \<and> ((tell (buf (snd (run calls self))) = 0) = (getvalue (buf (snd (run calls self))) = []))"
proof -
  have "at_end (buf (SocketBuffer s))"
    by (simp add: SocketBuffer_def BytesIO_def at_end_def tell_def getvalue_def)
  moreover have "at_end (fst (snd (read_line (sock self) (buf self) read_size limit)))"
  proof -
    obtain r b s' where res: "read_line (sock self) (buf self) read_size limit = (r, b, s')"
      by (cases "read_line (sock self) (buf self) read_size limit") auto
    from read_line_stream[OF assms res] res show ?thesis by simp
  qed
  moreover note unread_at_end[of bytes self] recv_at_end[OF assms, of n] close_at_end[of self]
    run_at_end[OF assms, of calls] at_end_empty[OF run_at_end[OF assms, of calls]]
  ultimately show ?thesis by blast
qed

theorem position_invariant_witness:
  "at_end (buf (SocketBuffer [''PROXY'', ''x'']))
   \<and> at_end (buf (snd (run [ReadLine 256 (Some 3), Unread ''ab'', Recv 1, Recv 9, Close]
        (SocketBuffer [''PROXY'', ''x'']))))"
proof -
  have h: "at_end (buf (SocketBuffer [''PROXY'', ''x'']))"
    by (simp add: SocketBuffer_def BytesIO_def at_end_def tell_def getvalue_def)
  from position_invariant[OF h] show ?thesis by blast
qed

text \<open>
  C3, as the code has it. \<open>read_line\<close> on a stream that holds a terminator. The
  stream is the content of the buffer followed by the chunks of the socket, however
  the bytes are cut into chunks; \<open>k\<close> is the index of its first CRLF. With no limit in
  force (\<open>None\<close> or \<open>0\<close>), or with a limit above the length \<open>k + 2\<close> of the line with
  its CRLF, \<open>read_line\<close> returns the stream up to and including that CRLF, and what
  follows the terminator is the new content of the buffer followed by what the socket
  still holds. With a limit in force the only other outcome is \<open>LineTooLong(n, limit)\<close>
  with \<open>limit < n + 2 \<le> k + 3\<close>, so only for a line with its CRLF at least as long as
  the limit.
\<close>

theorem read_line_returns_first_line:
  assumes "at_end buffer" and "socket_ok s" and "0 < read_size"
    and "find_bytes CRLF (getvalue buffer @ concat s) = Some k"
  shows "((limit = None \<or> limit = Some 0 \<or> (\<exists>l. limit = Some l \<and> int k + 2 < l)) \<longrightarrow>
            (\<exists>b' s'. read_line s buffer read_size limit
                = (Inr (take (k + 2) (getvalue buffer @ concat s)), b', s')
              \<and> getvalue b' @ concat s' = drop (k + 2) (getvalue buffer @ concat s)
              \<and> at_end b'))
       \<and> ((\<exists>b' s'. read_line s buffer read_size limit
                = (Inr (take (k + 2) (getvalue buffer @ concat s)), b', s')
              \<and> getvalue b' @ concat s' = drop (k + 2) (getvalue buffer @ concat s)
              \<and> at_end b')
          \<or> (\<exists>n l. fst (read_line s buffer read_size limit) = Inl (LineTooLong n l)
                \<and> limit = Some l \<and> l \<noteq> 0 \<and> l < n + 2 \<and> n \<le> int k + 1))"
proof -
  let ?S = "getvalue buffer @ concat s"
  let ?good = "\<exists>b' s'. read_line s buffer read_size limit = (Inr (take (k + 2) ?S), b', s')
              \<and> getvalue b' @ concat s' = drop (k + 2) ?S \<and> at_end b'"
  let ?bad = "\<exists>n l. fst (read_line s buffer read_size limit) = Inl (LineTooLong n l)
                \<and> limit = Some l \<and> l \<noteq> 0 \<and> l < n + 2 \<and> n \<le> int k + 1"
  obtain r b' s' where res: "read_line s buffer read_size limit = (r, b', s')"
    by (cases "read_line s buffer read_size limit") auto
  have either: "?good \<or> ?bad"
    using read_line_terminated[OF assms, of limit]
  proof
    assume "fst (read_line s buffer read_size limit) = Inr (take (k + 2) ?S)
        \<and> too_long limit (int k) = None"
    with res have r: "r = Inr (take (k + 2) ?S)" by simp
    from find_bytes_bound[OF assms(4)] have "k + 2 \<le> length ?S" by (simp add: CRLF_def)
    moreover from read_line_stream[OF assms(1) res] r
    have "at_end b'" and "take (k + 2) ?S @ getvalue b' @ concat s' = ?S" by simp_all
    ultimately have "getvalue b' @ concat s' = drop (k + 2) ?S"
      by (metis append_eq_conv_conj length_take min.absorb2)
    with res r \<open>at_end b'\<close> have ?good by blast
    then show ?thesis ..
  next
    assume "\<exists>n l. fst (read_line s buffer read_size limit) = Inl (LineTooLong n l)
        \<and> limit = Some l \<and> l \<noteq> 0 \<and> n + 2 > l \<and> n \<le> int k + 1"
    then have ?bad by blast
    then show ?thesis ..
  qed
  moreover have "\<not> ?bad"
    if "limit = None \<or> limit = Some 0 \<or> (\<exists>l. limit = Some l \<and> int k + 2 < l)"
    using that by auto
  ultimately show ?thesis by blast
qed

theorem read_line_returns_first_line_witness:
  "at_end BytesIO
   \<and> socket_ok [''hi'', ''ya'' @ [CHR 0x0D], CHR 0x0A # ''PING'' @ CRLF]
   \<and> find_bytes CRLF (getvalue BytesIO @ concat [''hi'', ''ya'' @ [CHR 0x0D], CHR 0x0A # ''PING'' @ CRLF])
       = Some 4
   \<and> (\<exists>b' s'. read_line [''hi'', ''ya'' @ [CHR 0x0D], CHR 0x0A # ''PING'' @ CRLF] BytesIO 256
            (Some 1024)
          = (Inr (''hiya'' @ CRLF), b', s')
        \<and> getvalue b' @ concat s' = ''PING'' @ CRLF)
   \<and> (\<exists>b' s'. read_line [''hi'', ''ya'' @ [CHR 0x0D], CHR 0x0A # ''PING'' @ CRLF] BytesIO 256 None
          = (Inr (''hiya'' @ CRLF), b', s')
        \<and> getvalue b' @ concat s' = ''PING'' @ CRLF)"
proof -
  let ?s = "[''hi'', ''ya'' @ [CHR 0x0D], CHR 0x0A # ''PING'' @ CRLF]"
  have h1: "at_end BytesIO"
    by (simp add: BytesIO_def at_end_def tell_def getvalue_def)
  have h2: "socket_ok ?s"
    by (simp add: socket_ok_def)
  have h3: "(0::nat) < 256"
    by simp
  have h4: "find_bytes CRLF (getvalue BytesIO @ concat ?s) = Some 4"
    by code_simp
  have v: "getvalue BytesIO @ concat ?s = ''hiya'' @ CRLF @ ''PING'' @ CRLF"
    by (simp add: getvalue_def BytesIO_def CRLF_def)
  have t: "take (4 + 2) (''hiya'' @ CRLF @ ''PING'' @ CRLF) = ''hiya'' @ CRLF"
    by (simp add: CRLF_def)
  have d: "drop (4 + 2) (''hiya'' @ CRLF @ ''PING'' @ CRLF) = ''PING'' @ CRLF"
    by (simp add: CRLF_def)
  have l: "Some (1024::int) = None \<or> Some (1024::int) = Some 0
      \<or> (\<exists>l. Some (1024::int) = Some l \<and> int 4 + 2 < l)"
    by simp
  from read_line_returns_first_line[OF h1 h2 h3 h4, of "Some 1024", THEN conjunct1] l
  have a: "\<exists>b' s'. read_line ?s BytesIO 256 (Some 1024) = (Inr (''hiya'' @ CRLF), b', s')
        \<and> getvalue b' @ concat s' = ''PING'' @ CRLF"
    unfolding v t d by blast
  from read_line_returns_first_line[OF h1 h2 h3 h4, of None, THEN conjunct1]
  have b: "\<exists>b' s'. read_line ?s BytesIO 256 None = (Inr (''hiya'' @ CRLF), b', s')
        \<and> getvalue b' @ concat s' = ''PING'' @ CRLF"
    unfolding v t d by blast
  from h1 h2 h4 a b show ?thesis by blast
qed

text \<open>
  The claim as written fails: the stream below holds a terminator, and with limit 5
  \<open>read_line\<close> raises \<open>LineTooLong(9, 5)\<close> instead of returning the line.
\<close>

theorem read_line_returns_first_line_counterexample:
  "find_bytes CRLF (getvalue BytesIO @ concat [''123456789'' @ CRLF]) = Some 9
   \<and> fst (read_line [''123456789'' @ CRLF] BytesIO 256 (Some 5)) = Inl (LineTooLong 9 5)"
  by code_simp

text \<open>
  C4, as the code has it. With a positive limit \<open>L\<close>, each test of the loop adds the
  two bytes of the terminator to what it has: \<open>LineTooLong(n, L)\<close> is raised only when
  \<open>n\<close> bytes of the stream hold no terminator and \<open>n + 2 > L\<close>, so it can be raised
  while no more than \<open>L\<close> bytes have been accumulated. A line that is shorter than
  \<open>L\<close> bytes with its CRLF is returned; a line that is longer than \<open>L\<close> bytes with
  its CRLF raises \<open>LineTooLong\<close>. (A line of exactly \<open>L\<close> bytes is left out here.)
\<close>

theorem read_line_limit:
  assumes "at_end buffer" and "socket_ok s" and "0 < read_size" and "0 < L"
  shows "(\<forall>n l. fst (read_line s buffer read_size (Some L)) = Inl (LineTooLong n l) \<longrightarrow>
            l = L \<and> 0 \<le> n \<and> L < n + 2 \<and> nat n \<le> length (getvalue buffer @ concat s)
            \<and> find_bytes CRLF (take (nat n) (getvalue buffer @ concat s)) = None)
       \<and> (\<forall>k. find_bytes CRLF (getvalue buffer @ concat s) = Some k \<and> int k + 2 < L \<longrightarrow>
            fst (read_line s buffer read_size (Some L))
              = Inr (take (k + 2) (getvalue buffer @ concat s)))
       \<and> (\<forall>k. find_bytes CRLF (getvalue buffer @ concat s) = Some k \<and> L < int k + 2 \<longrightarrow>
            (\<exists>n. fst (read_line s buffer read_size (Some L)) = Inl (LineTooLong n L)))"
proof -
  let ?S = "getvalue buffer @ concat s"
  let ?r = "fst (read_line s buffer read_size (Some L))"
  have a: "l = L \<and> 0 \<le> n \<and> L < n + 2 \<and> nat n \<le> length ?S
        \<and> find_bytes CRLF (take (nat n) ?S) = None"
    if "?r = Inl (LineTooLong n l)" for n l
    using read_line_too_long[OF assms(1) that] by simp
  have b: "?r = Inr (take (k + 2) ?S)"
    if "find_bytes CRLF ?S = Some k \<and> int k + 2 < L" for k
  proof -
    from that have k: "find_bytes CRLF ?S = Some k" and "int k + 2 < L" by simp_all
    with read_line_terminated[OF assms(1,2,3) k, of "Some L"] show ?thesis by auto
  qed
  have c: "\<exists>n. ?r = Inl (LineTooLong n L)"
    if "find_bytes CRLF ?S = Some k \<and> L < int k + 2" for k
  proof -
    from that have k: "find_bytes CRLF ?S = Some k" and "L < int k + 2" by simp_all
    with read_line_terminated[OF assms(1,2,3) k, of "Some L"] assms(4) show ?thesis
      by (auto simp: too_long_def split: if_splits)
  qed
  from a b c show ?thesis by blast
qed

theorem read_line_limit_witness:
  "at_end BytesIO \<and> socket_ok [''12345'', CRLF @ ''abc''] \<and> (0::int) < 10
   \<and> find_bytes CRLF (getvalue BytesIO @ concat [''12345'', CRLF @ ''abc'']) = Some 5
   \<and> fst (read_line [''12345'', CRLF @ ''abc''] BytesIO 256 (Some 10)) = Inr (''12345'' @ CRLF)"
proof -
  let ?s = "[''12345'', CRLF @ ''abc'']"
  have h1: "at_end BytesIO"
    by (simp add: BytesIO_def at_end_def tell_def getvalue_def)
  have h2: "socket_ok ?s"
    by (simp add: socket_ok_def CRLF_def)
  have h3: "(0::nat) < 256" and h4: "(0::int) < 10"
    by simp_all
  have k: "find_bytes CRLF (getvalue BytesIO @ concat ?s) = Some 5"
    by code_simp
  have t: "take (5 + 2) (getvalue BytesIO @ concat ?s) = ''12345'' @ CRLF"
    by (simp add: getvalue_def BytesIO_def CRLF_def)
  from read_line_limit[OF h1 h2 h3 h4] k
  have "fst (read_line ?s BytesIO 256 (Some 10)) = Inr (take (5 + 2) (getvalue BytesIO @ concat ?s))"
    by simp
  with h1 h2 h4 k t show ?thesis by simp
qed

text \<open>
  The claim as written fails: with limit 10, nine bytes without a terminator raise
  \<open>LineTooLong(9, 10)\<close>, although the bytes accumulated do not exceed the limit.
\<close>

theorem read_line_limit_counterexample:
  "read_line [''123456789''] BytesIO 256 (Some 10)
     = (Inl (LineTooLong 9 10), \<lparr>content = ''123456789'', pos = 9\<rparr>, [])
   \<and> \<not> (10::int) < 9"
  by code_simp

text \<open>
  A line of exactly the limit: ten bytes with the CRLF, limit 10. It is returned when
  the terminator arrives whole, and refused when a read ends between CR and LF, since
  the test before the next read counts two more bytes where one is missing.
\<close>

lemma read_line_limit_whole_terminator:
  "fst (read_line [''12345678'' @ [CHR 0x0D, CHR 0x0A]] BytesIO 256 (Some 10))
     = Inr (''12345678'' @ [CHR 0x0D, CHR 0x0A])"
  by code_simp

lemma read_line_limit_split_terminator:
  "fst (read_line [''12345678'' @ [CHR 0x0D], [CHR 0x0A]] BytesIO 256 (Some 10))
     = Inl (LineTooLong 9 10)"
  by code_simp

text \<open>
  C5. A line written in the wire format, with a family token \<open>TCP4\<close> or \<open>TCP6\<close>,
  addresses that \<open>inet_pton\<close> converts for that family and port fields that
  \<open>int\<close> reads, parses to the \<open>ProxyInfo\<close> of its fields: \<open>parts[2]\<close> and
  \<open>parts[3]\<close> (counting the token \<open>PROXY\<close> as \<open>parts[0]\<close>) are the source and
  destination addresses, byte for byte, and the integers of \<open>parts[4]\<close> and
  \<open>parts[5]\<close> are the source and destination ports. Whenever \<open>parse_line\<close> returns
  a \<open>ProxyInfo\<close>, its fields are these parts of the line.
\<close>

theorem parse_line_fields:
  assumes "inet = ''TCP4'' \<and> inet_pton AF_INET src_addr = Converted
           \<and> inet_pton AF_INET dst_addr = Converted
         \<or> inet = ''TCP6'' \<and> inet_pton AF_INET6 src_addr = Converted
           \<and> inet_pton AF_INET6 dst_addr = Converted"
    and "CHR '' '' \<notin> set src_addr" and "CHR '' '' \<notin> set dst_addr"
    and "CHR '' '' \<notin> set src_port" and "CHR '' '' \<notin> set dst_port"
    and "py_int src_port = Some p" and "py_int dst_port = Some q"
  shows "parse_line inet_pton (wire_format inet src_addr dst_addr src_port dst_port)
           = Inr \<lparr>source_address = src_addr, source_port = p,
                  destination_address = dst_addr, destination_port = q\<rparr>
       \<and> (\<forall>info. parse_line inet_pton line = Inr info \<longrightarrow>
             source_address info = line_parts line ! 2
             \<and> destination_address info = line_parts line ! 3
             \<and> py_int (line_parts line ! 4) = Some (source_port info)
             \<and> py_int (line_parts line ! 5) = Some (destination_port info))"
proof -
  let ?line = "wire_format inet src_addr dst_addr src_port dst_port"
  from assms(1) have "CHR '' '' \<notin> set inet" by auto
  from line_parts_wire_format[OF this assms(2-5)]
  have parts: "line_parts ?line = [''PROXY'', inet, src_addr, dst_addr, src_port, dst_port]" .
  have chk: "check_addresses inet_pton ?line (line_parts ?line ! 1) (line_parts ?line ! 2)
      (line_parts ?line ! 3) = None"
    using assms(1) by (simp add: parts check_addresses_None)
  have len: "length (line_parts ?line) = 6"
    by (simp add: parts)
  have "parse_line inet_pton ?line
           = Inr \<lparr>source_address = src_addr, source_port = p,
                  destination_address = dst_addr, destination_port = q\<rparr>"
    unfolding parse_line_ports[OF wire_format_checks[THEN conjunct1]
        wire_format_checks[THEN conjunct2] len chk]
    by (simp add: parts assms(6,7))
  with parse_line_success[of inet_pton line] show ?thesis by blast
qed

theorem parse_line_fields_witness:
  "dotted_quad AF_INET ''192.168.0.1'' = Converted
   \<and> dotted_quad AF_INET ''192.168.0.11'' = Converted
   \<and> py_int ''56324'' = Some 56324 \<and> py_int ''443'' = Some 443
   \<and> parse_line dotted_quad (''PROXY TCP4 192.168.0.1 192.168.0.11 56324 443'' @ CRLF)
       = Inr \<lparr>source_address = ''192.168.0.1'', source_port = 56324,
              destination_address = ''192.168.0.11'', destination_port = 443\<rparr>"
proof -
  have a: "dotted_quad AF_INET ''192.168.0.1'' = Converted"
    and b: "dotted_quad AF_INET ''192.168.0.11'' = Converted"
    by code_simp+
  have p: "py_int ''56324'' = Some 56324" and q: "py_int ''443'' = Some 443"
    by code_simp+
  have fam: "''TCP4'' = ''TCP4'' \<and> dotted_quad AF_INET ''192.168.0.1'' = Converted
        \<and> dotted_quad AF_INET ''192.168.0.11'' = Converted
      \<or> ''TCP4'' = ''TCP6'' \<and> dotted_quad AF_INET6 ''192.168.0.1'' = Converted
        \<and> dotted_quad AF_INET6 ''192.168.0.11'' = Converted"
    using a b by simp
  have w: "wire_format ''TCP4'' ''192.168.0.1'' ''192.168.0.11'' ''56324'' ''443''
      = ''PROXY TCP4 192.168.0.1 192.168.0.11 56324 443'' @ CRLF"
    by (simp add: wire_format_def)
  have "parse_line dotted_quad (''PROXY TCP4 192.168.0.1 192.168.0.11 56324 443'' @ CRLF)
       = Inr \<lparr>source_address = ''192.168.0.1'', source_port = 56324,
              destination_address = ''192.168.0.11'', destination_port = 443\<rparr>"
    using parse_line_fields[where inet = "''TCP4''" and inet_pton = dotted_quad
        and src_addr = "''192.168.0.1''" and dst_addr = "''192.168.0.11''"
        and src_port = "''56324''" and dst_port = "''443''" and p = 56324 and q = 443
        and line = "[]", OF fam _ _ _ _ p q]
    unfolding w by simp
  with a b p q show ?thesis by blast
qed




text \<open>
  C7. For a line that passes the prefix, terminator, field-count, family and address
  checks, \<open>parse_line\<close> fails exactly when \<open>int\<close> rejects one of the two port
  fields, and the failure is an \<open>InvalidLine\<close>; otherwise the two integers are
  returned as they were read, whatever their value: no range is checked.
\<close>

theorem parse_line_ports_unchecked:
  assumes "startswith line ''PROXY''" and "endswith line CRLF"
    and "length (line_parts line) = 6"
    and "line_parts line ! 1 = ''TCP4'' \<and> inet_pton AF_INET (line_parts line ! 2) = Converted
           \<and> inet_pton AF_INET (line_parts line ! 3) = Converted
         \<or> line_parts line ! 1 = ''TCP6'' \<and> inet_pton AF_INET6 (line_parts line ! 2) = Converted
           \<and> inet_pton AF_INET6 (line_parts line ! 3) = Converted"
  shows "((\<exists>e. parse_line inet_pton line = Inl e)
            = (py_int (line_parts line ! 4) = None \<or> py_int (line_parts line ! 5) = None))
       \<and> (\<forall>e. parse_line inet_pton line = Inl e \<longrightarrow> is_ParseError e)
       \<and> (\<forall>p q. py_int (line_parts line ! 4) = Some p \<and> py_int (line_parts line ! 5) = Some q
             \<longrightarrow> parse_line inet_pton line
                   = Inr \<lparr>source_address = line_parts line ! 2, source_port = p,
                          destination_address = line_parts line ! 3, destination_port = q\<rparr>)"
proof -
  from assms(4) have chk: "check_addresses inet_pton line (line_parts line ! 1)
      (line_parts line ! 2) (line_parts line ! 3) = None"
    by (simp add: check_addresses_None)
  note eq = parse_line_ports[OF assms(1-3) chk]
  have "(\<exists>e. parse_line inet_pton line = Inl e)
      = (py_int (line_parts line ! 4) = None \<or> py_int (line_parts line ! 5) = None)"
    unfolding eq by (auto split: option.splits)
  moreover have "\<forall>e. parse_line inet_pton line = Inl e \<longrightarrow> is_ParseError e"
    unfolding eq by (auto split: option.splits)
  moreover have "\<forall>p q. py_int (line_parts line ! 4) = Some p \<and> py_int (line_parts line ! 5) = Some q
             \<longrightarrow> parse_line inet_pton line
                   = Inr \<lparr>source_address = line_parts line ! 2, source_port = p,
                          destination_address = line_parts line ! 3, destination_port = q\<rparr>"
    unfolding eq by simp
  ultimately show ?thesis by blast
qed

theorem parse_line_ports_unchecked_witness:
  "parse_line dotted_quad (''PROXY TCP4 192.168.0.1 192.168.0.11 70000 -1'' @ CRLF)
     = Inr \<lparr>source_address = ''192.168.0.1'', source_port = 70000,
            destination_address = ''192.168.0.11'', destination_port = -1\<rparr>"
proof -
  let ?line = "''PROXY TCP4 192.168.0.1 192.168.0.11 70000 -1'' @ CRLF"
  have parts: "line_parts ?line = [''PROXY'', ''TCP4'', ''192.168.0.1'', ''192.168.0.11'', ''70000'', ''-1'']"
    by code_simp
  have h1: "startswith ?line ''PROXY''" and h2: "endswith ?line CRLF"
    by code_simp+
  have h3: "length (line_parts ?line) = 6"
    unfolding parts by simp
  have a: "dotted_quad AF_INET ''192.168.0.1'' = Converted"
    and b: "dotted_quad AF_INET ''192.168.0.11'' = Converted"
    by code_simp+
  have h4: "line_parts ?line ! 1 = ''TCP4''
           \<and> dotted_quad AF_INET (line_parts ?line ! 2) = Converted
           \<and> dotted_quad AF_INET (line_parts ?line ! 3) = Converted
         \<or> line_parts ?line ! 1 = ''TCP6''
           \<and> dotted_quad AF_INET6 (line_parts ?line ! 2) = Converted
           \<and> dotted_quad AF_INET6 (line_parts ?line ! 3) = Converted"
    unfolding parts using a b by simp
  have p: "py_int (line_parts ?line ! 4) = Some 70000" and q: "py_int (line_parts ?line ! 5) = Some (-1)"
    unfolding parts by code_simp+
  from parse_line_ports_unchecked[OF h1 h2 h3 h4] p q
  have "parse_line dotted_quad ?line
     = Inr \<lparr>source_address = line_parts ?line ! 2, source_port = 70000,
            destination_address = line_parts ?line ! 3, destination_port = -1\<rparr>"
    by blast
  then show ?thesis unfolding parts by simp
qed

text \<open>
  C8. The port branch raises \<open>InvalidLine(line, 'Invalid port')\<close>, its arguments in
  the reverse of the order of every other branch: the \<open>line\<close> attribute of the
  exception is the text \<open>Invalid port\<close> and not the offending line.
\<close>

theorem invalid_port_payload:
  "parse_line dotted_quad (''PROXY TCP4 192.168.0.1 192.168.0.11 abc 443'' @ CRLF)
     = Inl (InvalidLine (''PROXY TCP4 192.168.0.1 192.168.0.11 abc 443'' @ CRLF) ''Invalid port'')
   \<and> invalid_line_line
        (InvalidLine (''PROXY TCP4 192.168.0.1 192.168.0.11 abc 443'' @ CRLF) ''Invalid port'')
       = ''Invalid port''
   \<and> invalid_line_message
        (InvalidLine (''PROXY TCP4 192.168.0.1 192.168.0.11 abc 443'' @ CRLF) ''Invalid port'')
       = ''PROXY TCP4 192.168.0.1 192.168.0.11 abc 443'' @ CRLF @ '' - Invalid port''"
  by code_simp

text \<open>
  C2. What \<open>proxy_protocol\<close> does with the two kinds of error. The request is the raw
  socket \<open>s0\<close> (wrapped by the call with an empty buffer \<open>b0\<close>) or an adapter with
  socket \<open>s0\<close> and buffer \<open>b0\<close>; let \<open>read_line\<close> on them leave the buffer \<open>b\<close> and
  the socket \<open>s\<close>. If it raised a \<open>ReadError\<close>: under \<open>unread\<close> the default is
  returned, under \<open>raise\<close> the error is raised, and in both the adapter is left as
  \<open>read_line\<close> left it, \<open>unread\<close> is not called (what was read is still in the
  buffer). If it returned a line that \<open>parse_line\<close> rejects with a \<open>ParseError\<close>:
  under \<open>unread\<close> the default is returned and the line is unread, after which the
  stream of the request is the one it had before the call and reading on delivers
  exactly that stream; under \<open>raise\<close> the error is raised and the line stays
  consumed. An exception of \<open>parse_line\<close> that is no \<open>ParseError\<close> (the \<open>TypeError\<close>
  of \<open>inet_pton\<close>) is raised under both policies, the line consumed.
\<close>

theorem proxy_protocol_errors:
  assumes "request = Raw s0 \<and> b0 = BytesIO
         \<or> request = Wrapped \<lparr>sock = s0, buf = b0\<rparr> \<and> at_end b0"
    and "read_line s0 b0 256 limit = (r, b, s)"
  shows "(\<forall>e. r = Inl e \<longrightarrow>
            is_ReadError e
            \<and> proxy_protocol inet_pton hook client_address ''unread'' dflt limit authenticate request
                = (Inr (resolve client_address dflt), Wrapped \<lparr>sock = s, buf = b\<rparr>)
            \<and> proxy_protocol inet_pton hook client_address ''raise'' dflt limit authenticate request
                = (Inl e, Wrapped \<lparr>sock = s, buf = b\<rparr>)
            \<and> request_stream (Wrapped \<lparr>sock = s, buf = b\<rparr>) = request_stream request)
       \<and> (\<forall>line e. r = Inr line \<and> parse_line inet_pton line = Inl e \<and> is_ParseError e \<longrightarrow>
            proxy_protocol inet_pton hook client_address ''unread'' dflt limit authenticate request
                = (Inr (resolve client_address dflt), Wrapped (unread line \<lparr>sock = s, buf = b\<rparr>))
            \<and> request_stream (Wrapped (unread line \<lparr>sock = s, buf = b\<rparr>)) = request_stream request
            \<and> request_ok (Wrapped (unread line \<lparr>sock = s, buf = b\<rparr>))
            \<and> (socket_ok s0 \<and> 0 < n \<and> length (request_stream request) \<le> m \<longrightarrow>
                  delivered (fst (run (replicate m (Recv n)) (unread line \<lparr>sock = s, buf = b\<rparr>)))
                    = request_stream request)
            \<and> proxy_protocol inet_pton hook client_address ''raise'' dflt limit authenticate request
                = (Inl e, Wrapped \<lparr>sock = s, buf = b\<rparr>)
            \<and> line @ request_stream (Wrapped \<lparr>sock = s, buf = b\<rparr>) = request_stream request)
       \<and> (\<forall>line e. r = Inr line \<and> parse_line inet_pton line = Inl e \<and> \<not> is_ParseError e \<longrightarrow>
            e = TypeError
            \<and> proxy_protocol inet_pton hook client_address ''unread'' dflt limit authenticate request
                = (Inl e, Wrapped \<lparr>sock = s, buf = b\<rparr>)
            \<and> proxy_protocol inet_pton hook client_address ''raise'' dflt limit authenticate request
                = (Inl e, Wrapped \<lparr>sock = s, buf = b\<rparr>)
            \<and> line @ request_stream (Wrapped \<lparr>sock = s, buf = b\<rparr>) = request_stream request)"
proof -
  let ?after = "\<lparr>sock = s, buf = b\<rparr>"
  from assms(1) have w: "wrap request = \<lparr>sock = s0, buf = b0\<rparr>"
    by (auto simp: wrap_def SocketBuffer_def)
  from assms(1) have ae: "at_end b0"
    by (auto simp: BytesIO_def at_end_def tell_def getvalue_def)
  from assms(1) have before: "request_stream request = getvalue b0 @ concat s0"
    by (auto simp: BytesIO_def getvalue_def)
  note stream = read_line_stream[OF ae assms(2)]
  have rl: "read_line (sock (wrap request)) (buf (wrap request)) 256 limit = (r, b, s)"
    using assms(2) by (simp add: w)
  have rd: "is_ReadError e
      \<and> proxy_protocol inet_pton hook client_address ''unread'' dflt limit authenticate request
          = (Inr (resolve client_address dflt), Wrapped ?after)
      \<and> proxy_protocol inet_pton hook client_address ''raise'' dflt limit authenticate request
          = (Inl e, Wrapped ?after)
      \<and> request_stream (Wrapped ?after) = request_stream request"
    if "r = Inl e" for e
  proof -
    from that assms(2) have "fst (read_line s0 b0 256 limit) = Inl e" by simp
    then have k: "is_ReadError e" by (rule read_line_error)
    moreover from that stream before
    have "request_stream (Wrapped ?after) = request_stream request" by simp
    moreover from that k rl
    have "proxy_protocol inet_pton hook client_address ''unread'' dflt limit authenticate request
          = (Inr (resolve client_address dflt), Wrapped ?after)"
      and "proxy_protocol inet_pton hook client_address ''raise'' dflt limit authenticate request
          = (Inl e, Wrapped ?after)"
      by (simp_all add: proxy_protocol_def Let_def)
    ultimately show ?thesis by blast
  qed
  have consumed: "line @ request_stream (Wrapped ?after) = request_stream request"
    if "r = Inr line" for line
    using that stream before by simp
  have pe: "proxy_protocol inet_pton hook client_address ''unread'' dflt limit authenticate request
          = (Inr (resolve client_address dflt), Wrapped (unread line ?after))
      \<and> request_stream (Wrapped (unread line ?after)) = request_stream request
      \<and> request_ok (Wrapped (unread line ?after))
      \<and> (socket_ok s0 \<and> 0 < n \<and> length (request_stream request) \<le> m \<longrightarrow>
            delivered (fst (run (replicate m (Recv n)) (unread line ?after)))
              = request_stream request)
      \<and> proxy_protocol inet_pton hook client_address ''raise'' dflt limit authenticate request
          = (Inl e, Wrapped ?after)
      \<and> line @ request_stream (Wrapped ?after) = request_stream request"
    if "r = Inr line \<and> parse_line inet_pton line = Inl e \<and> is_ParseError e" for line e
  proof -
    from that have r: "r = Inr line" and p: "parse_line inet_pton line = Inl e"
      and k: "is_ParseError e" by simp_all
    note eq = consumed[OF r]
    have restored: "pending (unread line ?after) = request_stream request"
      unfolding unread_pending using eq by (simp add: pending_def)
    then have same: "request_stream (Wrapped (unread line ?after)) = request_stream request"
      by (simp add: pending_def)
    have ok: "request_ok (Wrapped (unread line ?after))"
      by (simp add: unread_at_end)
    have drain: "delivered (fst (run (replicate m (Recv n)) (unread line ?after)))
              = request_stream request"
      if "socket_ok s0 \<and> 0 < n \<and> length (request_stream request) \<le> m"
    proof -
      from that read_line_socket_ok[of s0 b0 256 limit] assms(2)
      have "socket_ok (sock (unread line ?after))" by (simp add: unread_sock)
      from recv_drains[OF unread_at_end this, of n m] that restored
      show ?thesis by simp
    qed
    from r p k rl
    have "proxy_protocol inet_pton hook client_address ''unread'' dflt limit authenticate request
          = (Inr (resolve client_address dflt), Wrapped (unread line ?after))"
      and "proxy_protocol inet_pton hook client_address ''raise'' dflt limit authenticate request
          = (Inl e, Wrapped ?after)"
      by (simp_all add: proxy_protocol_def Let_def)
    with same ok drain eq show ?thesis by blast
  qed
  have te: "e = TypeError
      \<and> proxy_protocol inet_pton hook client_address ''unread'' dflt limit authenticate request
          = (Inl e, Wrapped ?after)
      \<and> proxy_protocol inet_pton hook client_address ''raise'' dflt limit authenticate request
          = (Inl e, Wrapped ?after)
      \<and> line @ request_stream (Wrapped ?after) = request_stream request"
    if "r = Inr line \<and> parse_line inet_pton line = Inl e \<and> \<not> is_ParseError e" for line e
  proof -
    from that have r: "r = Inr line" and p: "parse_line inet_pton line = Inl e"
      and k: "\<not> is_ParseError e" by simp_all
    from parse_line_error[OF p] k have "e = TypeError" by blast
    moreover from r p k rl
    have "proxy_protocol inet_pton hook client_address ''unread'' dflt limit authenticate request
          = (Inl e, Wrapped ?after)"
      and "proxy_protocol inet_pton hook client_address ''raise'' dflt limit authenticate request
          = (Inl e, Wrapped ?after)"
      by (simp_all add: proxy_protocol_def Let_def)
    ultimately show ?thesis using consumed[OF r] by blast
  qed
  from rd pe te show ?thesis by blast
qed

theorem proxy_protocol_errors_witness:
  \<open>read_line [''hiya'' @ CRLF] BytesIO 256 (Some 1024) = (Inr (''hiya'' @ CRLF), BytesIO, [])
   \<and> parse_line dotted_quad (''hiya'' @ CRLF)
       = Inl (InvalidLine ''Missing "PROXY" prefix'' (''hiya'' @ CRLF))
   \<and> proxy_protocol dotted_quad (proxy_authenticate (''10.0.0.1'', 5000)) (''10.0.0.1'', 5000)
        ''unread'' (Given ()) (Some 1024) False (Raw [''hiya'' @ CRLF])
       = (Inr (Default ()), Wrapped (unread (''hiya'' @ CRLF) \<lparr>sock = [], buf = BytesIO\<rparr>))
   \<and> delivered (fst (run (replicate 6 (Recv 4096))
        (unread (''hiya'' @ CRLF) \<lparr>sock = [], buf = BytesIO\<rparr>))) = ''hiya'' @ CRLF
   \<and> recv 4096 (unread (''hiya'' @ CRLF) \<lparr>sock = [], buf = BytesIO\<rparr>)
       = (''hiya'' @ CRLF, \<lparr>sock = [], buf = BytesIO\<rparr>)
   \<and> proxy_protocol dotted_quad (proxy_authenticate (''10.0.0.1'', 5000)) (''10.0.0.1'', 5000)
        ''raise'' (Given ()) (Some 1024) False (Raw [''hiya'' @ CRLF])
       = (Inl (InvalidLine ''Missing "PROXY" prefix'' (''hiya'' @ CRLF)),
          Wrapped \<lparr>sock = [], buf = BytesIO\<rparr>)\<close>
proof -
  let ?s0 = "[''hiya'' @ CRLF]"
  let ?rq = "Raw ?s0"
  let ?e = \<open>InvalidLine ''Missing "PROXY" prefix'' (''hiya'' @ CRLF)\<close>
  have h1: "?rq = Raw ?s0 \<and> BytesIO = BytesIO
      \<or> ?rq = Wrapped \<lparr>sock = ?s0, buf = BytesIO\<rparr> \<and> at_end BytesIO"
    by simp
  have h2: "read_line ?s0 BytesIO 256 (Some 1024) = (Inr (''hiya'' @ CRLF), BytesIO, [])"
    by code_simp
  have p: "parse_line dotted_quad (''hiya'' @ CRLF) = Inl ?e"
    by code_simp
  have k: "is_ParseError ?e"
    by simp
  have rc: "recv 4096 (unread (''hiya'' @ CRLF) \<lparr>sock = [], buf = BytesIO\<rparr>)
       = (''hiya'' @ CRLF, \<lparr>sock = [], buf = BytesIO\<rparr>)"
    by code_simp
  have ok: "socket_ok ?s0 \<and> (0::nat) < 4096 \<and> length (request_stream ?rq) \<le> 6"
    by (simp add: socket_ok_def CRLF_def)
  have st: "request_stream ?rq = ''hiya'' @ CRLF"
    by simp
  have rs: "resolve (''10.0.0.1'', 5000) (Given ()) = Default ()"
    by (simp add: resolve_def)
  note t = proxy_protocol_errors[OF h1 h2, where inet_pton = dotted_quad
      and hook = "proxy_authenticate (''10.0.0.1'', 5000)"
      and client_address = "(''10.0.0.1'', 5000)" and dflt = "Given ()"
      and authenticate = False and n = 4096 and m = 6]
  from t p k
  have u: "proxy_protocol dotted_quad (proxy_authenticate (''10.0.0.1'', 5000)) (''10.0.0.1'', 5000)
        ''unread'' (Given ()) (Some 1024) False ?rq
       = (Inr (resolve (''10.0.0.1'', 5000) (Given ())),
          Wrapped (unread (''hiya'' @ CRLF) \<lparr>sock = [], buf = BytesIO\<rparr>))"
    by blast
  from t p k ok
  have dr: "delivered (fst (run (replicate 6 (Recv 4096))
        (unread (''hiya'' @ CRLF) \<lparr>sock = [], buf = BytesIO\<rparr>))) = request_stream ?rq"
    by blast
  from t p k
  have ra: "proxy_protocol dotted_quad (proxy_authenticate (''10.0.0.1'', 5000)) (''10.0.0.1'', 5000)
        ''raise'' (Given ()) (Some 1024) False ?rq
       = (Inl ?e, Wrapped \<lparr>sock = [], buf = BytesIO\<rparr>)"
    by blast
  from h2 p u[unfolded rs] dr[unfolded st] rc ra show ?thesis by blast
qed

text \<open>
  An address field with a NUL byte: \<open>inet_pton\<close> raises \<open>TypeError\<close>, which no
  handler of \<open>parse_line\<close> or \<open>proxy_protocol\<close> catches, under either policy.
\<close>

lemma proxy_protocol_type_error:
  "parse_line dotted_quad (''PROXY TCP4 192.168.0.1 192.168.0.'' @ [CHR 0x00] @ '' 56324 443'' @ CRLF)
     = Inl TypeError
   \<and> fst (proxy_protocol dotted_quad (proxy_authenticate (''10.0.0.1'', 5000)) (''10.0.0.1'', 5000)
        ''unread'' (Given ()) (Some 1024) False
        (Raw [''PROXY TCP4 192.168.0.1 192.168.0.'' @ [CHR 0x00] @ '' 56324 443'' @ CRLF]))
     = Inl TypeError"
  by code_simp

text \<open>
  C9. The default hook accepts a \<open>ProxyInfo\<close> exactly when its destination address
  and port are the peer's. When \<open>proxy_protocol\<close> is called with
  \<open>authenticate=True\<close>, a line is read and parsed, and the hook rejects the parsed
  information, the call returns the default and raises nothing; with the default hook,
  what is returned is never the rejected information.
\<close>

theorem authentication_fails_closed:
  assumes "error = ''raise'' \<or> error = ''unread''"
    and "read_line (sock (wrap request)) (buf (wrap request)) 256 limit = (Inr line, b, s)"
    and "parse_line inet_pton line = Inr info"
    and "\<not> hook info"
  shows "proxy_authenticate client_address i
           = (destination_address i = fst client_address
              \<and> destination_port i = snd client_address)
       \<and> proxy_protocol inet_pton hook client_address error dflt limit True request
           = (Inr (resolve client_address dflt), Wrapped \<lparr>sock = s, buf = b\<rparr>)
       \<and> (hook = proxy_authenticate client_address \<longrightarrow> resolve client_address dflt \<noteq> Info info)"
proof -
  have "proxy_authenticate client_address i
           = (destination_address i = fst client_address
              \<and> destination_port i = snd client_address)"
    by (auto simp: proxy_authenticate_def prod_eq_iff)
  moreover from assms
  have "proxy_protocol inet_pton hook client_address error dflt limit True request
           = (Inr (resolve client_address dflt), Wrapped \<lparr>sock = s, buf = b\<rparr>)"
    by (auto simp: proxy_protocol_def Let_def)
  moreover have "resolve client_address dflt \<noteq> Info info"
    if "hook = proxy_authenticate client_address"
    using that assms(4) resolve_rejected by blast
  ultimately show ?thesis by blast
qed

theorem authentication_fails_closed_witness:
  "\<not> proxy_authenticate (''10.0.0.1'', 5000)
       \<lparr>source_address = ''192.168.0.1'', source_port = 56324,
        destination_address = ''192.168.0.11'', destination_port = 443\<rparr>
   \<and> proxy_protocol dotted_quad (proxy_authenticate (''10.0.0.1'', 5000)) (''10.0.0.1'', 5000)
        ''raise'' Peer None True
        (Raw [''PROXY TCP4 192.168.0.1 192.168.0.11 56324 443'' @ CRLF @ ''hiya'' @ CRLF])
       = (Inr (Info \<lparr>source_address = ''10.0.0.1'', source_port = 5000,
                     destination_address = ''10.0.0.1'', destination_port = 5000\<rparr>
               :: unit returned),
          Wrapped \<lparr>sock = [], buf = \<lparr>content = ''hiya'' @ CRLF, pos = 6\<rparr>\<rparr>)"
proof -
  let ?rq = "Raw [''PROXY TCP4 192.168.0.1 192.168.0.11 56324 443'' @ CRLF @ ''hiya'' @ CRLF]"
  let ?line = "''PROXY TCP4 192.168.0.1 192.168.0.11 56324 443'' @ CRLF"
  let ?info = "\<lparr>source_address = ''192.168.0.1'', source_port = 56324,
        destination_address = ''192.168.0.11'', destination_port = 443\<rparr>"
  have h1: "''raise'' = ''raise'' \<or> ''raise'' = ''unread''"
    by simp
  have h2: "read_line (sock (wrap ?rq)) (buf (wrap ?rq)) 256 None
      = (Inr ?line, \<lparr>content = ''hiya'' @ CRLF, pos = 6\<rparr>, [])"
    by code_simp
  have h3: "parse_line dotted_quad ?line = Inr ?info"
    by code_simp
  have h4: "\<not> proxy_authenticate (''10.0.0.1'', 5000) ?info"
    by (simp add: proxy_authenticate_def)
  have rs: "resolve (''10.0.0.1'', 5000) (Peer :: unit default)
      = Info \<lparr>source_address = ''10.0.0.1'', source_port = 5000,
               destination_address = ''10.0.0.1'', destination_port = 5000\<rparr>"
    by (simp add: resolve_def)
  note t = authentication_fails_closed[where hook = "proxy_authenticate (''10.0.0.1'', 5000)"
      and client_address = "(''10.0.0.1'', 5000)" and dflt = "Peer :: unit default"
      and info = ?info and inet_pton = dotted_quad,
      OF h1 h2 h3 h4, THEN conjunct2, THEN conjunct1]
  from h4 t[unfolded rs] show ?thesis by blast
qed

end
